theory Spec2Isabelle
  imports
    Complex_Main
    "HOL-Library.Multiset"
    "HOL-Library.Option_ord"
    "HOL-Library.Product_Lexorder"
    "HOL-Library.Char_ord"
    "HOL-Library.List_Lexorder"
begin

section \<open>Process analyzer: event log, transition graph and time KPIs\<close>

text \<open>
  A shallow embedding of \<^verbatim>\<open>process_analyzer.py\<close>: the two functions
  \<^verbatim>\<open>compute_kpis\<close> and \<^verbatim>\<open>analyze_dataframe\<close>, together with the
  operations of the tabular library they call.

  Conventions of the model:
  \<^item> a data frame is the list of its column names and the list of its rows; only the
    columns the program reads or writes are fields of a row, a field whose column is
    not listed in \<open>columns\<close> is never read;
  \<^item> a missing value (NaN, None, NaT) of a column is \<open>None\<close>, \<open>NaT\<close> or \<open>NaN\<close>;
  \<^item> a point in time is an integer number of seconds, a duration in hours is an exact
    rational (binary floating point is not modelled);
  \<^item> data frames live in a heap, a list of frames addressed by position: \<open>copy\<close>,
    \<open>sort_values\<close>, \<open>dropna\<close> and boolean indexing allocate a new frame, a column
    assignment \<^verbatim>\<open>df[c] = ...\<close> updates the frame in place;
  \<^item> the row index of a frame is not modelled: every column assignment of the program
    assigns a series computed from the same frame, whose index is identical.
\<close>

subsection \<open>Values, rows and frames\<close>

datatype tsval = Text string | Stamp int | NaT

datatype pyfloat = Float rat | NaN

record 'c row =
  case_id :: "'c option"
  step :: "string option"
  timestamp :: tsval
  next_timestamp :: tsval
  next_step :: "string option"
  delta_hours :: pyfloat

record 'c frame =
  columns :: "string list"
  rows :: "'c row list"

type_synonym 'c heap = "'c frame list"

text \<open>
  What the program takes from its libraries without fixing it: the date parser behind
  \<^verbatim>\<open>pd.to_datetime\<close>, and the index sort \<^verbatim>\<open>argsort(kind="quicksort")\<close> that a
  single-key \<^verbatim>\<open>sort_values\<close> runs (on the case identifiers, on the occurrence counts
  of \<^verbatim>\<open>value_counts\<close>, on the mean durations). The library documents that sort as
  not stable, so it is a parameter, constrained by \<open>argsort_ok\<close> only.
\<close>

record 'c lib =
  strptime :: "string \<Rightarrow> int option"
  argsort_case :: "'c list \<Rightarrow> nat list"
  argsort_count :: "int list \<Rightarrow> nat list"
  argsort_hours :: "rat list \<Rightarrow> nat list"

definition argsort_ok :: "('k::linorder list \<Rightarrow> nat list) \<Rightarrow> bool" where
  "argsort_ok f \<longleftrightarrow>
     (\<forall>ks. mset (f ks) = mset [0..<length ks] \<and> sorted (map (\<lambda>i. ks ! i) (f ks)))"

definition lib_ok :: "'c::linorder lib \<Rightarrow> bool" where
  "lib_ok lib \<longleftrightarrow>
     argsort_ok (argsort_case lib) \<and> argsort_ok (argsort_count lib) \<and> argsort_ok (argsort_hours lib)"

text \<open>
  Two index sorts that meet the contract. The first keeps equal keys in place. The second
  starts as a merging network does: it compares the two outermost positions, then the next
  two inwards, and so on, exchanging a pair only when its keys are out of order, and then
  sorts what is left by insertion. It leaves a column of equal keys as it is, and it
  changes the order of equal keys when larger keys stand before them.
\<close>

definition argsort_stable :: "'k::linorder list \<Rightarrow> nat list" where
  "argsort_stable ks = sort_key (\<lambda>i. ks ! i) [0..<length ks]"

fun exchange_ends :: "('a \<Rightarrow> 'k::linorder) \<Rightarrow> 'a list \<Rightarrow> 'a list" where
  "exchange_ends f [] = []"
| "exchange_ends f [x] = [x]"
| "exchange_ends f (x # y # ys) =
     (let z = last (y # ys); mid = exchange_ends f (butlast (y # ys))
      in if f z < f x then z # mid @ [x] else x # mid @ [z])"

definition argsort_exchange :: "'k::linorder list \<Rightarrow> nat list" where
  "argsort_exchange ks = sort_key (\<lambda>i. ks ! i) (exchange_ends (\<lambda>i. ks ! i) [0..<length ks])"

subsection \<open>Library operations on columns\<close>

fun to_datetime :: "(string \<Rightarrow> int option) \<Rightarrow> tsval \<Rightarrow> tsval" where
  "to_datetime p (Text s) = (case p s of None \<Rightarrow> NaT | Some t \<Rightarrow> Stamp t)"
| "to_datetime p (Stamp t) = Stamp t"
| "to_datetime p NaT = NaT"

fun is_datetime :: "tsval \<Rightarrow> bool" where
  "is_datetime (Text s) = False"
| "is_datetime (Stamp t) = True"
| "is_datetime NaT = True"

definition is_datetime64_any_dtype :: "tsval list \<Rightarrow> bool" where
  "is_datetime64_any_dtype col = list_all is_datetime col"

fun stamp_of :: "tsval \<Rightarrow> int option" where
  "stamp_of (Stamp t) = Some t"
| "stamp_of (Text s) = None"
| "stamp_of NaT = None"

definition isna :: "tsval \<Rightarrow> bool" where
  "isna v \<longleftrightarrow> stamp_of v = None"

fun somes :: "'a option list \<Rightarrow> 'a list" where
  "somes [] = []"
| "somes (None # xs) = somes xs"
| "somes (Some x # xs) = x # somes xs"

fun floats :: "pyfloat list \<Rightarrow> rat list" where
  "floats [] = []"
| "floats (NaN # xs) = floats xs"
| "floats (Float q # xs) = q # floats xs"

fun notna :: "pyfloat \<Rightarrow> bool" where
  "notna (Float q) = True"
| "notna NaN = False"

text \<open>Aggregations skip missing values and give the missing value on nothing.\<close>

definition ts_min :: "tsval list \<Rightarrow> tsval" where
  "ts_min col = (case somes (map stamp_of col) of [] \<Rightarrow> NaT | t # ts \<Rightarrow> Stamp (fold min ts t))"

definition ts_max :: "tsval list \<Rightarrow> tsval" where
  "ts_max col = (case somes (map stamp_of col) of [] \<Rightarrow> NaT | t # ts \<Rightarrow> Stamp (fold max ts t))"

definition series_mean :: "pyfloat list \<Rightarrow> pyfloat" where
  "series_mean col =
     (case floats col of [] \<Rightarrow> NaN | q # qs \<Rightarrow> Float (sum_list (q # qs) / of_nat (length (q # qs))))"

definition series_min :: "pyfloat list \<Rightarrow> pyfloat" where
  "series_min col = (case floats col of [] \<Rightarrow> NaN | q # qs \<Rightarrow> Float (fold min qs q))"

definition series_max :: "pyfloat list \<Rightarrow> pyfloat" where
  "series_max col = (case floats col of [] \<Rightarrow> NaN | q # qs \<Rightarrow> Float (fold max qs q))"

definition series_count :: "pyfloat list \<Rightarrow> int" where
  "series_count col = int (length (floats col))"

text \<open>\<^verbatim>\<open>(b - a).dt.total_seconds() / 3600.0\<close>\<close>

fun hours_between :: "tsval \<Rightarrow> tsval \<Rightarrow> pyfloat" where
  "hours_between (Stamp a) (Stamp b) = Float (of_int (b - a) / 3600)"
| "hours_between a b = NaN"

text \<open>
  \<^verbatim>\<open>round(x, 2)\<close>: to the nearest hundredth, a tie to the even one. The model rounds
  the exact rational; the program rounds the binary double nearest to it, so the two can
  differ by one hundredth where the exact value is at or next to a tie.
\<close>

definition round_half_even :: "rat \<Rightarrow> int" where
  "round_half_even q =
     (let f = \<lfloor>q\<rfloor>; d = q - of_int f
      in if d < 1 / 2 then f else if 1 / 2 < d then f + 1 else if even f then f else f + 1)"

fun round2 :: "pyfloat \<Rightarrow> pyfloat" where
  "round2 (Float q) = Float (of_int (round_half_even (q * 100)) / 100)"
| "round2 NaN = NaN"

text \<open>The distinct values of a column in the order of their first appearance.\<close>

definition unique :: "'a list \<Rightarrow> 'a list" where
  "unique xs = rev (remdups (rev xs))"

definition nunique :: "'a option list \<Rightarrow> nat" where
  "nunique col = length (unique (somes col))"

subsection \<open>Sorting\<close>

text \<open>
  Missing keys sort last: the key of a value is the pair of "is missing" and the value.
\<close>

definition na_last :: "'a option \<Rightarrow> bool \<times> 'a option" where
  "na_last v = (v = None, v)"

text \<open>
  \<^verbatim>\<open>nargsort\<close>, the index sort behind a single-key \<^verbatim>\<open>sort_values\<close>: the missing
  keys are set aside and appended in their order, the others are sorted by the library's
  \<^verbatim>\<open>argsort\<close>; a descending sort reverses before and after.
\<close>

definition nargsort :: "('k list \<Rightarrow> nat list) \<Rightarrow> bool \<Rightarrow> 'k option list \<Rightarrow> nat list" where
  "nargsort argsort ascending items =
     (let idx = [0..<length items];
          nonnan_idx = filter (\<lambda>i. items ! i \<noteq> None) idx;
          nan_idx = filter (\<lambda>i. items ! i = None) idx;
          nonnan_idx = (if ascending then nonnan_idx else rev nonnan_idx);
          nonnan = somes (map (\<lambda>i. items ! i) nonnan_idx);
          indexer = map (\<lambda>j. nonnan_idx ! j) (argsort nonnan);
          indexer = (if ascending then indexer else rev indexer)
      in indexer @ nan_idx)"

definition take_rows :: "nat list \<Rightarrow> 'a list \<Rightarrow> 'a list" where
  "take_rows indexer xs = map (\<lambda>i. xs ! i) indexer"

text \<open>\<^verbatim>\<open>sort_values(["case_id"])\<close>: one key, the default kind.\<close>

definition sort_values_case_id :: "('c list \<Rightarrow> nat list) \<Rightarrow> 'c row list \<Rightarrow> 'c row list" where
  "sort_values_case_id argsort rs = take_rows (nargsort argsort True (map case_id rs)) rs"

text \<open>
  \<^verbatim>\<open>sort_values(["case_id", "timestamp"])\<close>: several keys are sorted by the
  lexicographic index sort, which is stable.
\<close>

definition lex_key :: "'c row \<Rightarrow> (bool \<times> 'c option) \<times> (bool \<times> int option)" where
  "lex_key r = (na_last (case_id r), na_last (stamp_of (timestamp r)))"

definition sort_values_case_id_timestamp :: "'c::linorder row list \<Rightarrow> 'c row list" where
  "sort_values_case_id_timestamp rs = sort_key lex_key rs"

subsection \<open>Grouping and counting\<close>

text \<open>
  \<^verbatim>\<open>groupby(key)\<close>: the groups in ascending order of their key, each with its rows
  in the order of the frame; rows with a missing key belong to no group.
\<close>

definition groupby :: "('r \<Rightarrow> 'k::linorder option) \<Rightarrow> 'r list \<Rightarrow> ('k \<times> 'r list) list" where
  "groupby key rs =
     map (\<lambda>k. (k, filter (\<lambda>r. key r = Some k) rs)) (sort (remdups (somes (map key rs))))"

text \<open>
  \<^verbatim>\<open>groupby(key)[col].shift(-1)\<close>: for each row the value of the next row of its
  group, nothing for the last row of a group and for a row with a missing key.
\<close>

fun group_shift :: "('r \<Rightarrow> 'k option) \<Rightarrow> 'r list \<Rightarrow> 'r option list" where
  "group_shift key [] = []"
| "group_shift key (r # rs) =
     (if key r = None then None else find (\<lambda>r'. key r' = key r) rs) # group_shift key rs"

text \<open>
  \<^verbatim>\<open>value_counts()\<close>: missing values dropped, one entry per distinct value with its
  number of occurrences, sorted by descending count with the single-key sort.
\<close>

definition value_counts :: "(int list \<Rightarrow> nat list) \<Rightarrow> 'a option list \<Rightarrow> ('a \<times> int) list" where
  "value_counts argsort col =
     (let vals = somes col;
          keys = unique vals;
          counts = map (\<lambda>k. int (count_list vals k)) keys;
          indexer = nargsort argsort False (map Some counts)
      in take_rows indexer (zip keys counts))"

text \<open>\<^verbatim>\<open>edge_counter[k] += 1\<close> on a \<^verbatim>\<open>Counter\<close>, which keeps insertion order.\<close>

fun counter_incr :: "'k \<Rightarrow> ('k \<times> int) list \<Rightarrow> ('k \<times> int) list" where
  "counter_incr k [] = [(k, 1)]"
| "counter_incr k ((k', n) # kvs) =
     (if k = k' then (k', n + 1) # kvs else (k', n) # counter_incr k kvs)"

subsection \<open>Heap operations\<close>

definition alloc :: "'c frame \<Rightarrow> 'c heap \<Rightarrow> nat \<times> 'c heap" where
  "alloc f h = (length h, h @ [f])"

definition copy :: "nat \<Rightarrow> 'c heap \<Rightarrow> nat \<times> 'c heap" where
  "copy df h = alloc (h ! df) h"

definition add_column :: "string \<Rightarrow> string list \<Rightarrow> string list" where
  "add_column c cs = (if c \<in> set cs then cs else cs @ [c])"

definition setitem_timestamp :: "nat \<Rightarrow> tsval list \<Rightarrow> 'c heap \<Rightarrow> 'c heap" where
  "setitem_timestamp df col h =
     h[df := (h ! df)\<lparr>columns := add_column ''timestamp'' (columns (h ! df)),
                      rows := map2 (\<lambda>r v. r\<lparr>timestamp := v\<rparr>) (rows (h ! df)) col\<rparr>]"

definition setitem_next_timestamp :: "nat \<Rightarrow> tsval list \<Rightarrow> 'c heap \<Rightarrow> 'c heap" where
  "setitem_next_timestamp df col h =
     h[df := (h ! df)\<lparr>columns := add_column ''next_timestamp'' (columns (h ! df)),
                      rows := map2 (\<lambda>r v. r\<lparr>next_timestamp := v\<rparr>) (rows (h ! df)) col\<rparr>]"

definition setitem_next_step :: "nat \<Rightarrow> string option list \<Rightarrow> 'c heap \<Rightarrow> 'c heap" where
  "setitem_next_step df col h =
     h[df := (h ! df)\<lparr>columns := add_column ''next_step'' (columns (h ! df)),
                      rows := map2 (\<lambda>r v. r\<lparr>next_step := v\<rparr>) (rows (h ! df)) col\<rparr>]"

definition setitem_delta_hours :: "nat \<Rightarrow> pyfloat list \<Rightarrow> 'c heap \<Rightarrow> 'c heap" where
  "setitem_delta_hours df col h =
     h[df := (h ! df)\<lparr>columns := add_column ''delta_hours'' (columns (h ! df)),
                      rows := map2 (\<lambda>r v. r\<lparr>delta_hours := v\<rparr>) (rows (h ! df)) col\<rparr>]"

subsection \<open>Results\<close>

record node =
  n_id :: string
  n_count :: int

record edge =
  e_from :: "string option"
  e_to :: "string option"
  e_count :: int

record stats_rec =
  num_cases :: int
  num_events :: int
  num_steps :: int
  num_transitions :: int

record graph_rec =
  nodes :: "node list"
  edges :: "edge list"

record cycle_time_rec =
  avg_hours :: "pyfloat option"
  min_hours :: "pyfloat option"
  max_hours :: "pyfloat option"

record step_duration =
  sd_step :: string
  sd_avg_hours :: pyfloat
  sd_count :: int

record transition_duration =
  td_from :: string
  td_to :: string
  td_avg_hours :: pyfloat
  td_count :: int

record kpi_fields =
  cycle_time :: cycle_time_rec
  steps_duration :: "step_duration list"
  slowest_steps :: "step_duration list"
  transitions_duration :: "transition_duration list"
  slowest_transitions :: "transition_duration list"

text \<open>\<^verbatim>\<open>{"has_timestamp": False}\<close>, or \<^verbatim>\<open>{"has_timestamp": True, ...}\<close>.\<close>

datatype kpi_result = Has_no_timestamp | Has_timestamp kpi_fields

record analysis =
  stats :: stats_rec
  graph :: graph_rec
  kpi :: kpi_result

datatype error = ValueError

subsection \<open>\<^verbatim>\<open>compute_kpis\<close>\<close>

text \<open>Lines 33 and 34: the cycle time of each case, in hours.\<close>

definition cycle_delta_hours :: "'c::linorder row list \<Rightarrow> pyfloat list" where
  "cycle_delta_hours rs =
     map (\<lambda>(c, g). hours_between (ts_min (map timestamp g)) (ts_max (map timestamp g)))
       (groupby case_id rs)"

text \<open>Lines 46 to 51: the columns added to the sorted frame.\<close>

definition next_timestamp_col :: "'c row list \<Rightarrow> tsval list" where
  "next_timestamp_col rs =
     map (\<lambda>nxt. case nxt of None \<Rightarrow> NaT | Some r \<Rightarrow> timestamp r) (group_shift case_id rs)"

definition next_step_col :: "'c row list \<Rightarrow> string option list" where
  "next_step_col rs =
     map (\<lambda>nxt. case nxt of None \<Rightarrow> None | Some r \<Rightarrow> step r) (group_shift case_id rs)"

definition delta_hours_col :: "'c row list \<Rightarrow> pyfloat list" where
  "delta_hours_col rs = map (\<lambda>r. hours_between (timestamp r) (next_timestamp r)) rs"

text \<open>Line 54: \<^verbatim>\<open>df["delta_hours"].notna() & (df["delta_hours"] >= 0)\<close>.\<close>

fun ge_zero :: "pyfloat \<Rightarrow> bool" where
  "ge_zero (Float q) = (0 \<le> q)"
| "ge_zero NaN = False"

definition mask :: "'c row \<Rightarrow> bool" where
  "mask r \<longleftrightarrow> notna (delta_hours r) \<and> ge_zero (delta_hours r)"

fun float_opt :: "pyfloat \<Rightarrow> rat option" where
  "float_opt (Float q) = Some q"
| "float_opt NaN = None"

text \<open>Lines 58 to 72: count and mean of the gaps of each step, by descending mean.\<close>

definition step_stats :: "(rat list \<Rightarrow> nat list) \<Rightarrow> 'c row list \<Rightarrow> (string \<times> int \<times> pyfloat) list" where
  "step_stats argsort df_dur =
     (let agg = map (\<lambda>(s, g). (s, series_count (map delta_hours g), series_mean (map delta_hours g)))
                  (groupby step df_dur)
      in take_rows (nargsort argsort False (map (\<lambda>(s, c, m). float_opt m) agg)) agg)"

definition steps_duration_of :: "(string \<times> int \<times> pyfloat) list \<Rightarrow> step_duration list" where
  "steps_duration_of st =
     map (\<lambda>(s, c, m). \<lparr>sd_step = s, sd_avg_hours = round2 m, sd_count = c\<rparr>) st"

text \<open>Lines 76 to 91: the same for each pair of a step and the step that follows it.\<close>

definition step_pair :: "'c row \<Rightarrow> (string \<times> string) option" where
  "step_pair r =
     (case step r of None \<Rightarrow> None
      | Some a \<Rightarrow> (case next_step r of None \<Rightarrow> None | Some b \<Rightarrow> Some (a, b)))"

definition trans_stats ::
    "(rat list \<Rightarrow> nat list) \<Rightarrow> 'c row list \<Rightarrow> ((string \<times> string) \<times> int \<times> pyfloat) list" where
  "trans_stats argsort df_dur =
     (let agg = map (\<lambda>(p, g). (p, series_count (map delta_hours g), series_mean (map delta_hours g)))
                  (groupby step_pair df_dur)
      in take_rows (nargsort argsort False (map (\<lambda>(p, c, m). float_opt m) agg)) agg)"

definition transitions_duration_of ::
    "((string \<times> string) \<times> int \<times> pyfloat) list \<Rightarrow> transition_duration list" where
  "transitions_duration_of st =
     map (\<lambda>((a, b), c, m). \<lparr>td_from = a, td_to = b, td_avg_hours = round2 m, td_count = c\<rparr>) st"

text \<open>Lines 36 to 41 and 96 to 100: the aggregate cycle time.\<close>

definition cycle_time_of :: "pyfloat list \<Rightarrow> cycle_time_rec" where
  "cycle_time_of cycle =
     (if 0 < length cycle
      then \<lparr>avg_hours = Some (round2 (series_mean cycle)),
            min_hours = Some (round2 (series_min cycle)),
            max_hours = Some (round2 (series_max cycle))\<rparr>
      else \<lparr>avg_hours = None, min_hours = None, max_hours = None\<rparr>)"

text \<open>Lines 45 to 55: the sorted frame, its three new columns and the gaps that are kept.\<close>

definition duration_samples :: "nat \<Rightarrow> 'c::linorder heap \<Rightarrow> nat \<times> 'c heap" where
  "duration_samples df h4 =
     (let (sorted, h5) =
            alloc ((h4 ! df)\<lparr>rows := sort_values_case_id_timestamp (rows (h4 ! df))\<rparr>) h4;
          (df, h6) = copy sorted h5;
          h7 = setitem_next_timestamp df (next_timestamp_col (rows (h6 ! df))) h6;
          h8 = setitem_next_step df (next_step_col (rows (h7 ! df))) h7;
          h9 = setitem_delta_hours df (delta_hours_col (rows (h8 ! df))) h8;
          (masked, h10) = alloc ((h9 ! df)\<lparr>rows := filter mask (rows (h9 ! df))\<rparr>) h9
      in copy masked h10)"

text \<open>Lines 20 to 24: the working copy, its timestamps parsed unless they are already.\<close>

definition copy_parsed :: "'c lib \<Rightarrow> nat \<Rightarrow> 'c heap \<Rightarrow> nat \<times> 'c heap" where
  "copy_parsed lib events h0 =
     (let (df, h1) = copy events h0
      in (df, if \<not> is_datetime64_any_dtype (map timestamp (rows (h1 ! df)))
              then setitem_timestamp df
                     (map (to_datetime (strptime lib)) (map timestamp (rows (h1 ! df)))) h1
              else h1))"

text \<open>Line 30: \<^verbatim>\<open>df.dropna(subset=["timestamp"]).copy()\<close>.\<close>

definition dropna_timestamp :: "nat \<Rightarrow> 'c heap \<Rightarrow> nat \<times> 'c heap" where
  "dropna_timestamp df h2 =
     (let (dropped, h3) =
            alloc ((h2 ! df)\<lparr>rows := filter (\<lambda>r. \<not> isna (timestamp r)) (rows (h2 ! df))\<rparr>) h2
      in copy dropped h3)"

definition compute_kpis :: "'c::linorder lib \<Rightarrow> nat \<Rightarrow> 'c heap \<Rightarrow> kpi_result \<times> 'c heap" where
  "compute_kpis lib events h0 =
     (if ''timestamp'' \<notin> set (columns (h0 ! events)) then (Has_no_timestamp, h0)
      else
        let (df, h2) = copy_parsed lib events h0
        in if list_all isna (map timestamp (rows (h2 ! df))) then (Has_no_timestamp, h2)
           else
             let (df, h4) = dropna_timestamp df h2;
                 cycle = cycle_delta_hours (rows (h4 ! df));
                 (df_dur, h11) = duration_samples df h4;
                 steps_duration = steps_duration_of (step_stats (argsort_hours lib) (rows (h11 ! df_dur)));
                 transitions_duration =
                   transitions_duration_of (trans_stats (argsort_hours lib) (rows (h11 ! df_dur)))
             in (Has_timestamp
                   \<lparr>cycle_time = cycle_time_of cycle,
                    steps_duration = steps_duration,
                    slowest_steps = take 3 steps_duration,
                    transitions_duration = transitions_duration,
                    slowest_transitions = take 3 transitions_duration\<rparr>, h11))"

subsection \<open>\<^verbatim>\<open>analyze_dataframe\<close>\<close>

text \<open>Lines 120 to 130: the copy, the parsed timestamps and the sort.\<close>

definition normalize_events :: "'c::linorder lib \<Rightarrow> nat \<Rightarrow> 'c heap \<Rightarrow> nat \<times> 'c heap" where
  "normalize_events lib df h0 =
     (let (events, h1) = copy df h0;
          h2 = (if ''timestamp'' \<in> set (columns (h1 ! events))
                then setitem_timestamp events
                       (map (to_datetime (strptime lib)) (map timestamp (rows (h1 ! events)))) h1
                else h1)
      in if ''timestamp'' \<in> set (columns (h2 ! events))
         then alloc ((h2 ! events)\<lparr>rows := sort_values_case_id_timestamp (rows (h2 ! events))\<rparr>) h2
         else
           let (sorted, h3) =
                 alloc ((h2 ! events)\<lparr>rows := sort_values_case_id (argsort_case lib) (rows (h2 ! events))\<rparr>) h2
           in copy sorted h3)"

text \<open>Lines 144 to 148: the transitions of one case, then of every case.\<close>

type_synonym counter = "((string option \<times> string option) \<times> int) list"

definition count_case_edges :: "counter \<Rightarrow> 'c \<times> 'c row list \<Rightarrow> counter" where
  "count_case_edges edge_counter cg =
     (let steps_seq = map step (snd cg)
      in foldl (\<lambda>cnt ab. counter_incr ab cnt) edge_counter (zip steps_seq (drop 1 steps_seq)))"

definition count_edges :: "'c::linorder row list \<Rightarrow> counter" where
  "count_edges events = foldl count_case_edges [] (groupby case_id events)"

definition analyze_dataframe ::
    "'c::linorder lib \<Rightarrow> nat \<Rightarrow> 'c heap \<Rightarrow> (error + analysis) \<times> 'c heap" where
  "analyze_dataframe lib df h0 =
     (if \<not> {''case_id'', ''step''} \<subseteq> set (columns (h0 ! df)) then (Inl ValueError, h0)
      else
        let (events, h1) = normalize_events lib df h0;
            num_cases = int (nunique (map case_id (rows (h1 ! events))));
            num_events = int (length (rows (h1 ! events)));
            step_counts = value_counts (argsort_count lib) (map step (rows (h1 ! events)));
            num_steps = int (length step_counts);
            nodes = map (\<lambda>(s, c). \<lparr>n_id = s, n_count = c\<rparr>) step_counts;
            edge_counter = count_edges (rows (h1 ! events));
            edges = map (\<lambda>((src, dst), c). \<lparr>e_from = src, e_to = dst, e_count = c\<rparr>) edge_counter;
            stats = \<lparr>num_cases = num_cases, num_events = num_events, num_steps = num_steps,
                     num_transitions = int (length edges)\<rparr>;
            graph = \<lparr>nodes = nodes, edges = edges\<rparr>;
            (kpi, h2) = compute_kpis lib events h1
        in (Inr \<lparr>stats = stats, graph = graph, kpi = kpi\<rparr>, h2))"

subsection \<open>Notions used in the statements\<close>

text \<open>
  A heap extends another when it keeps every frame of it unchanged. The rows of a frame with
  their timestamps parsed, the normalized event log of a table, and the rows of the sorted
  frame with its three added columns, name what the functions above compute on the way.
  An event built from a case, a step and a timestamp, and a library whose index sort keeps
  ties in place, serve as concrete inputs.
\<close>

definition extends :: "'a list \<Rightarrow> 'a list \<Rightarrow> bool" where
  "extends h h' \<longleftrightarrow> length h \<le> length h' \<and> take (length h) h' = h"

definition parsed :: "'c lib \<Rightarrow> 'c row list \<Rightarrow> 'c row list" where
  "parsed lib rs = map (\<lambda>r. r\<lparr>timestamp := to_datetime (strptime lib) (timestamp r)\<rparr>) rs"

definition normalized :: "'c::linorder lib \<Rightarrow> 'c frame \<Rightarrow> 'c row list" where
  "normalized lib f =
     (if ''timestamp'' \<in> set (columns f)
      then sort_values_case_id_timestamp (parsed lib (rows f))
      else sort_values_case_id (argsort_case lib) (rows f))"

definition event :: "nat \<Rightarrow> string \<Rightarrow> tsval \<Rightarrow> nat row" where
  "event c s t =
     \<lparr>case_id = Some c, step = Some s, timestamp = t, next_timestamp = NaT, next_step = None,
      delta_hours = NaN\<rparr>"

definition stable_lib :: "nat lib" where
  "stable_lib =
     \<lparr>strptime = (\<lambda>s. None), argsort_case = argsort_stable, argsort_count = argsort_stable,
      argsort_hours = argsort_stable\<rparr>"

definition no_step_table :: "nat frame" where
  "no_step_table = \<lparr>columns = [''case_id'', ''timestamp''], rows = [event 1 ''a'' NaT]\<rparr>"

definition unparsable_table :: "nat frame" where
  "unparsable_table =
     \<lparr>columns = [''case_id'', ''step'', ''timestamp''],
      rows = [event 1 ''a'' (Text ''soon''), event 1 ''b'' NaT]\<rparr>"

definition gap_rows :: "'c row list \<Rightarrow> 'c row list" where
  "gap_rows rs =
     map2 (\<lambda>r nxt. r\<lparr>next_timestamp := (case nxt of None \<Rightarrow> NaT | Some r' \<Rightarrow> timestamp r'),
                     next_step := (case nxt of None \<Rightarrow> None | Some r' \<Rightarrow> step r'),
                     delta_hours := hours_between (timestamp r)
                        (case nxt of None \<Rightarrow> NaT | Some r' \<Rightarrow> timestamp r')\<rparr>)
       rs (group_shift case_id rs)"

definition example_table :: "nat frame" where
  "example_table =
     \<lparr>columns = [''case_id'', ''step'', ''timestamp''],
      rows = [event 1 ''submit'' (Stamp 0), event 1 ''review'' (Stamp 7200),
              event 1 ''approve'' (Stamp 18000), event 2 ''submit'' (Stamp 0),
              event 2 ''review'' (Stamp 3600)]\<rparr>"

definition lookup_count :: "('k \<times> int) list \<Rightarrow> 'k \<Rightarrow> int" where
  "lookup_count kvs k = (case map_of kvs k of None \<Rightarrow> 0 | Some n \<Rightarrow> n)"

definition two_case_table :: "nat frame" where
  "two_case_table =
     \<lparr>columns = [''case_id'', ''step''],
      rows = [event 1 ''a'' NaT, event 2 ''x'' NaT, event 1 ''b'' NaT]\<rparr>"

definition null_case_table :: "nat frame" where
  "null_case_table =
     \<lparr>columns = [''case_id'', ''step'', ''timestamp''],
      rows = [(event 1 ''a'' (Stamp 0))\<lparr>case_id := None\<rparr>]\<rparr>"

definition swapped_table :: "nat frame" where
  "swapped_table =
     \<lparr>columns = [''case_id'', ''step''],
      rows = [event 2 ''B'' NaT, event 1 ''A'' NaT]\<rparr>"



definition exchange_lib :: "nat lib" where
  "exchange_lib = stable_lib\<lparr>argsort_case := argsort_exchange\<rparr>"

definition one_case_table :: "nat frame" where
  "one_case_table =
     \<lparr>columns = [''case_id'', ''step''], rows = [event 1 ''a'' NaT, event 1 ''b'' NaT]\<rparr>"

definition two_pairs_table :: "nat frame" where
  "two_pairs_table =
     \<lparr>columns = [''case_id'', ''step''],
      rows = [event 2 ''a'' NaT, event 2 ''b'' NaT, event 1 ''c'' NaT, event 1 ''d'' NaT]\<rparr>"

section \<open>Properties\<close>

subsection \<open>The heap only grows\<close>

lemma extends_refl: "extends h h"
  by (simp add: extends_def)

lemma extends_trans:
  assumes "extends h1 h2" and "extends h2 h3"
  shows "extends h1 h3"
proof -
  have a: "length h1 \<le> length h2" and b: "take (length h1) h2 = h1"
    using assms(1) by (simp_all add: extends_def)
  have c: "length h2 \<le> length h3" and d: "take (length h2) h3 = h2"
    using assms(2) by (simp_all add: extends_def)
  have "take (length h1) (take (length h2) h3) = take (length h1) h3"
    using a by (simp add: min_def)
  then have "take (length h1) h3 = h1"
    using b d by simp
  then show ?thesis
    using a c by (simp add: extends_def)
qed

lemma extends_alloc: "extends h (snd (alloc f h))"
  by (simp add: extends_def alloc_def)

lemma extends_copy: "extends h (snd (copy df h))"
  by (simp add: copy_def extends_alloc)

lemma extends_setitem:
  "length h0 \<le> df \<Longrightarrow> extends h0 h \<Longrightarrow> extends h0 (setitem_timestamp df c1 h)"
  "length h0 \<le> df \<Longrightarrow> extends h0 h \<Longrightarrow> extends h0 (setitem_next_timestamp df c2 h)"
  "length h0 \<le> df \<Longrightarrow> extends h0 h \<Longrightarrow> extends h0 (setitem_next_step df c3 h)"
  "length h0 \<le> df \<Longrightarrow> extends h0 h \<Longrightarrow> extends h0 (setitem_delta_hours df c4 h)"
  by (simp_all add: extends_def setitem_timestamp_def setitem_next_timestamp_def
        setitem_next_step_def setitem_delta_hours_def)

lemma fst_alloc: "fst (alloc f h) = length h" and snd_alloc: "snd (alloc f h) = h @ [f]"
  by (simp_all add: alloc_def)

lemma fst_copy: "fst (copy df h) = length h" and snd_copy: "snd (copy df h) = h @ [h ! df]"
  by (simp_all add: copy_def alloc_def)

lemma extends_copy_parsed: "extends h (snd (copy_parsed lib ev h))"
  by (simp add: copy_parsed_def case_prod_beta fst_copy extends_setitem extends_copy)

lemma extends_dropna: "extends h (snd (dropna_timestamp df h))"
  by (simp add: dropna_timestamp_def case_prod_beta extends_trans[OF extends_alloc extends_copy])

lemma extends_duration: "extends h (snd (duration_samples df h))"
  by (simp add: extends_def duration_samples_def alloc_def copy_def Let_def
        setitem_next_timestamp_def setitem_next_step_def setitem_delta_hours_def)

lemma extends_normalize: "extends h (snd (normalize_events lib df h))"
  by (simp add: extends_def normalize_events_def alloc_def copy_def Let_def setitem_timestamp_def)

lemma extends_kpis: "extends h (snd (compute_kpis lib ev h))"
  by (auto simp add: compute_kpis_def case_prod_beta Let_def extends_refl extends_copy_parsed
        intro: extends_trans[OF extends_copy_parsed extends_trans[OF extends_dropna extends_duration]])

lemma extends_analyze: "extends h (snd (analyze_dataframe lib df h))"
  by (auto simp add: analyze_dataframe_def case_prod_beta Let_def extends_refl
        intro: extends_trans[OF extends_normalize extends_kpis])

subsection \<open>What each stage computes\<close>

lemma map2_upd: "map2 g rs (map f rs) = map (\<lambda>r. g r (f r)) rs"
  by (induction rs) auto

lemma to_datetime_idem: "is_datetime v \<Longrightarrow> to_datetime p v = v"
  by (cases v) auto

lemma parsed_id: "list_all is_datetime (map timestamp rs) \<Longrightarrow> parsed lib rs = rs"
  by (induction rs) (auto simp: parsed_def to_datetime_idem)

lemma add_column_mem: "c \<in> set cs \<Longrightarrow> add_column c cs = cs"
  by (simp add: add_column_def)

lemma setitem_timestamp_parsed:
  "map2 (\<lambda>r v. r\<lparr>timestamp := v\<rparr>) rs (map (to_datetime (strptime lib)) (map timestamp rs)) = parsed lib rs"
  by (induction rs) (simp_all add: parsed_def)

lemma copy_parsed_rows:
  "rows (snd (copy_parsed lib ev h) ! fst (copy_parsed lib ev h)) = parsed lib (rows (h ! ev))"
proof (cases "is_datetime64_any_dtype (map timestamp (rows (h ! ev)))")
  case True
  then show ?thesis
    by (simp add: copy_parsed_def case_prod_beta fst_copy snd_copy parsed_id is_datetime64_any_dtype_def)
next
  case False
  then show ?thesis
    using setitem_timestamp_parsed[of "rows (h ! ev)" lib]
    by (simp add: copy_parsed_def case_prod_beta fst_copy snd_copy setitem_timestamp_def)
qed

lemma copy_parsed_columns:
  "''timestamp'' \<in> set (columns (h ! ev)) \<Longrightarrow>
   columns (snd (copy_parsed lib ev h) ! fst (copy_parsed lib ev h)) = columns (h ! ev)"
  by (simp add: copy_parsed_def case_prod_beta fst_copy snd_copy setitem_timestamp_def add_column_mem)

lemma dropna_rows:
  "rows (snd (dropna_timestamp df h) ! fst (dropna_timestamp df h)) =
     filter (\<lambda>r. \<not> isna (timestamp r)) (rows (h ! df))"
  by (simp add: dropna_timestamp_def case_prod_beta fst_copy snd_copy fst_alloc snd_alloc nth_append)

lemma normalize_rows:
  "rows (snd (normalize_events lib df h) ! fst (normalize_events lib df h)) =
     (if ''timestamp'' \<in> set (columns (h ! df))
      then sort_values_case_id_timestamp (parsed lib (rows (h ! df)))
      else sort_values_case_id (argsort_case lib) (rows (h ! df)))"
  using setitem_timestamp_parsed[of "rows (h ! df)" lib]
  by (simp add: normalize_events_def case_prod_beta fst_copy snd_copy fst_alloc snd_alloc
        setitem_timestamp_def add_column_mem nth_append Let_def)

lemma normalize_columns:
  "columns (snd (normalize_events lib df h) ! fst (normalize_events lib df h)) = columns (h ! df)"
  by (simp add: normalize_events_def case_prod_beta fst_copy snd_copy fst_alloc snd_alloc
        setitem_timestamp_def add_column_mem nth_append Let_def)


lemma length_group_shift: "length (group_shift key rs) = length rs"
  by (induction rs) simp_all

lemma find_upd_step:
  "length vs = length rs \<Longrightarrow>
   (case find (\<lambda>r'. case_id r' = k) (map2 (\<lambda>r v. r\<lparr>next_timestamp := v\<rparr>) rs vs)
      of None \<Rightarrow> None | Some r \<Rightarrow> step r) =
   (case find (\<lambda>r'. case_id r' = k) rs of None \<Rightarrow> None | Some r \<Rightarrow> step r)"
proof (induction rs arbitrary: vs)
  case Nil
  then show ?case by simp
next
  case (Cons r rs)
  then obtain v vs' where "vs = v # vs'" by (cases vs) auto
  with Cons show ?case by simp
qed

lemma next_step_col_upd:
  "length vs = length rs \<Longrightarrow>
   next_step_col (map2 (\<lambda>r v. r\<lparr>next_timestamp := v\<rparr>) rs vs) = next_step_col rs"
proof (induction rs arbitrary: vs)
  case Nil
  then show ?case by (simp add: next_step_col_def)
next
  case (Cons r rs)
  then obtain v vs' where vs: "vs = v # vs'" by (cases vs) auto
  with Cons have len: "length vs' = length rs" by simp
  have ih: "next_step_col (map2 (\<lambda>r v. r\<lparr>next_timestamp := v\<rparr>) rs vs') = next_step_col rs"
    using Cons.IH[OF len] .
  show ?case
    using ih find_upd_step[OF len, of "case_id r"]
    by (simp add: vs next_step_col_def)
qed

lemma delta_hours_col_upd:
  "length vs = length rs \<Longrightarrow> length ws = length rs \<Longrightarrow>
   delta_hours_col (map2 (\<lambda>r v. r\<lparr>next_step := v\<rparr>) (map2 (\<lambda>r v. r\<lparr>next_timestamp := v\<rparr>) rs vs) ws) =
     map2 (\<lambda>r v. hours_between (timestamp r) v) rs vs"
proof (induction rs arbitrary: vs ws)
  case Nil
  then show ?case by (simp add: delta_hours_col_def)
next
  case (Cons r rs)
  then obtain v vs' w ws' where "vs = v # vs'" "ws = w # ws'" by (cases vs; cases ws) auto
  with Cons show ?case by (simp add: delta_hours_col_def)
qed

lemma three_columns:
  "length gs = length rs \<Longrightarrow>
   map2 (\<lambda>r v. r\<lparr>delta_hours := v\<rparr>)
     (map2 (\<lambda>r v. r\<lparr>next_step := v\<rparr>)
        (map2 (\<lambda>r v. r\<lparr>next_timestamp := v\<rparr>) rs (map nt gs)) (map ns gs))
     (map2 (\<lambda>r v. hours_between (timestamp r) v) rs (map nt gs)) =
   map2 (\<lambda>r nxt. r\<lparr>next_timestamp := nt nxt, next_step := ns nxt,
                    delta_hours := hours_between (timestamp r) (nt nxt)\<rparr>) rs gs"
proof (induction rs arbitrary: gs)
  case Nil
  then show ?case by simp
next
  case (Cons r rs)
  then obtain g gs' where "gs = g # gs'" by (cases gs) auto
  with Cons show ?case by simp
qed

lemma gap_rows_eq:
  "map2 (\<lambda>r v. r\<lparr>delta_hours := v\<rparr>)
     (map2 (\<lambda>r v. r\<lparr>next_step := v\<rparr>)
        (map2 (\<lambda>r v. r\<lparr>next_timestamp := v\<rparr>) rs (next_timestamp_col rs))
        (next_step_col (map2 (\<lambda>r v. r\<lparr>next_timestamp := v\<rparr>) rs (next_timestamp_col rs))))
     (delta_hours_col
        (map2 (\<lambda>r v. r\<lparr>next_step := v\<rparr>)
          (map2 (\<lambda>r v. r\<lparr>next_timestamp := v\<rparr>) rs (next_timestamp_col rs))
          (next_step_col (map2 (\<lambda>r v. r\<lparr>next_timestamp := v\<rparr>) rs (next_timestamp_col rs))))) =
   gap_rows rs"
proof -
  have l1: "length (next_timestamp_col rs) = length rs"
    by (simp add: next_timestamp_col_def length_group_shift)
  have l2: "length (next_step_col rs) = length rs"
    by (simp add: next_step_col_def length_group_shift)
  show ?thesis
    unfolding next_step_col_upd[OF l1] delta_hours_col_upd[OF l1 l2]
    unfolding next_timestamp_col_def next_step_col_def gap_rows_def
    by (rule three_columns) (simp add: length_group_shift)
qed

lemma duration_rows:
  "rows (snd (duration_samples df h) ! fst (duration_samples df h)) =
     filter mask (gap_rows (sort_values_case_id_timestamp (rows (h ! df))))"
  using gap_rows_eq[of "sort_values_case_id_timestamp (rows (h ! df))"]
  by (simp add: duration_samples_def case_prod_beta fst_copy snd_copy fst_alloc snd_alloc
        setitem_next_timestamp_def setitem_next_step_def setitem_delta_hours_def nth_append Let_def)


lemma compute_kpis_fst:
  "fst (compute_kpis lib ev h) =
     (if ''timestamp'' \<notin> set (columns (h ! ev)) \<or>
         list_all isna (map timestamp (parsed lib (rows (h ! ev))))
      then Has_no_timestamp
      else
        let dropped = filter (\<lambda>r. \<not> isna (timestamp r)) (parsed lib (rows (h ! ev)));
            dur = filter mask (gap_rows (sort_values_case_id_timestamp dropped));
            sd = steps_duration_of (step_stats (argsort_hours lib) dur);
            td = transitions_duration_of (trans_stats (argsort_hours lib) dur)
        in Has_timestamp
             \<lparr>cycle_time = cycle_time_of (cycle_delta_hours dropped),
              steps_duration = sd, slowest_steps = take 3 sd,
              transitions_duration = td, slowest_transitions = take 3 td\<rparr>)"
  by (simp add: compute_kpis_def case_prod_beta Let_def copy_parsed_rows dropna_rows duration_rows)

lemma is_datetime_to_datetime: "is_datetime (to_datetime p v)"
  by (cases v) (auto split: option.splits)

lemma parsed_datetime: "list_all is_datetime (map timestamp (parsed lib rs))"
  by (induction rs) (simp_all add: parsed_def is_datetime_to_datetime)

lemma parsed_sorted_parsed:
  "parsed lib (sort_values_case_id_timestamp (parsed lib rs)) =
     sort_values_case_id_timestamp (parsed lib rs)"
proof (rule parsed_id)
  have "set (sort_values_case_id_timestamp (parsed lib rs)) = set (parsed lib rs)"
    by (simp add: sort_values_case_id_timestamp_def)
  then show "list_all is_datetime (map timestamp (sort_values_case_id_timestamp (parsed lib rs)))"
    using parsed_datetime[of lib rs] by (simp add: list_all_iff)
qed

lemma analyze_dataframe_fst:
  assumes "{''case_id'', ''step''} \<subseteq> set (columns (h ! df))"
  shows "fst (analyze_dataframe lib df h) =
     Inr \<lparr>stats =
            \<lparr>num_cases = int (nunique (map case_id (normalized lib (h ! df)))),
             num_events = int (length (normalized lib (h ! df))),
             num_steps = int (length (value_counts (argsort_count lib) (map step (normalized lib (h ! df))))),
             num_transitions = int (length (count_edges (normalized lib (h ! df))))\<rparr>,
          graph =
            \<lparr>nodes = map (\<lambda>(s, c). \<lparr>n_id = s, n_count = c\<rparr>)
                      (value_counts (argsort_count lib) (map step (normalized lib (h ! df)))),
             edges = map (\<lambda>((src, dst), c). \<lparr>e_from = src, e_to = dst, e_count = c\<rparr>)
                      (count_edges (normalized lib (h ! df)))\<rparr>,
          kpi = fst (compute_kpis lib (fst (normalize_events lib df h)) (snd (normalize_events lib df h)))\<rparr>"
  using assms
  by (simp add: analyze_dataframe_def case_prod_beta Let_def normalize_rows normalized_def)

lemma analyze_dataframe_kpi:
  "fst (compute_kpis lib (fst (normalize_events lib df h)) (snd (normalize_events lib df h))) =
     (if ''timestamp'' \<notin> set (columns (h ! df)) \<or>
         list_all isna (map timestamp (parsed lib (rows (h ! df))))
      then Has_no_timestamp
      else
        let dropped = filter (\<lambda>r. \<not> isna (timestamp r)) (sort_values_case_id_timestamp (parsed lib (rows (h ! df))));
            dur = filter mask (gap_rows (sort_values_case_id_timestamp dropped));
            sd = steps_duration_of (step_stats (argsort_hours lib) dur);
            td = transitions_duration_of (trans_stats (argsort_hours lib) dur)
        in Has_timestamp
             \<lparr>cycle_time = cycle_time_of (cycle_delta_hours dropped),
              steps_duration = sd, slowest_steps = take 3 sd,
              transitions_duration = td, slowest_transitions = take 3 td\<rparr>)"
proof -
  have s: "set (sort_values_case_id_timestamp (parsed lib (rows (h ! df)))) = set (parsed lib (rows (h ! df)))"
    by (simp add: sort_values_case_id_timestamp_def)
  show ?thesis
    by (simp add: compute_kpis_fst normalize_rows normalize_columns parsed_sorted_parsed
          list_all_iff s)
qed


subsection \<open>Schema rejection\<close>

text \<open>
  C1: for every input table that lacks the \<open>case_id\<close> column or the \<open>step\<close> column, the
  analysis fails with the schema error (the \<^verbatim>\<open>ValueError\<close> of line 118) and returns no
  stats, graph or kpi; the heap is left as it was.
\<close>

theorem schema_rejection:
  assumes "''case_id'' \<notin> set (columns (h ! df)) \<or> ''step'' \<notin> set (columns (h ! df))"
  shows "analyze_dataframe lib df h = (Inl ValueError, h)"
  using assms by (auto simp add: analyze_dataframe_def)

theorem schema_rejection_witness:
  "''step'' \<notin> set (columns ([no_step_table] ! 0)) \<and>
   analyze_dataframe stable_lib 0 [no_step_table] = (Inl ValueError, [no_step_table])"
  using schema_rejection[where df = 0 and lib = stable_lib and h = "[no_step_table]"]
  by (simp add: no_step_table_def)

subsection \<open>The input table is not mutated\<close>

text \<open>
  C8: the analysis does not mutate the caller's table: after the call every frame that
  existed before it, the input table among them, has the rows, columns and values it had;
  all writes go to frames allocated during the call.
\<close>

theorem input_not_mutated:
  "take (length h) (snd (analyze_dataframe lib df h)) = h"
  using extends_analyze[of h lib df] by (simp add: extends_def)

subsection \<open>No usable timestamp\<close>

lemma set_parsed_isna:
  "list_all isna (map timestamp (parsed lib rs)) \<longleftrightarrow>
     (\<forall>r\<in>set rs. isna (to_datetime (strptime lib) (timestamp r)))"
  by (simp add: parsed_def list_all_iff)

text \<open>
  C6: for every input table with both required columns the analysis returns a result, and
  its kpi is exactly \<^verbatim>\<open>{"has_timestamp": False}\<close> if and only if the table has no
  \<open>timestamp\<close> column or no value of that column parses to a point in time.
\<close>

theorem no_timestamp_iff:
  assumes "{''case_id'', ''step''} \<subseteq> set (columns (h ! df))"
  shows "\<exists>res h'. analyze_dataframe lib df h = (Inr res, h') \<and>
           (kpi res = Has_no_timestamp \<longleftrightarrow>
              ''timestamp'' \<notin> set (columns (h ! df)) \<or>
              (\<forall>r\<in>set (rows (h ! df)). isna (to_datetime (strptime lib) (timestamp r))))"
proof -
  obtain res where res: "fst (analyze_dataframe lib df h) = Inr res"
    and k: "kpi res = fst (compute_kpis lib (fst (normalize_events lib df h)) (snd (normalize_events lib df h)))"
    using analyze_dataframe_fst[OF assms, of lib] by simp
  have "kpi res = Has_no_timestamp \<longleftrightarrow>
          ''timestamp'' \<notin> set (columns (h ! df)) \<or>
          (\<forall>r\<in>set (rows (h ! df)). isna (to_datetime (strptime lib) (timestamp r)))"
    unfolding k analyze_dataframe_kpi set_parsed_isna[symmetric] by (simp add: Let_def)
  moreover have "analyze_dataframe lib df h = (Inr res, snd (analyze_dataframe lib df h))"
    using res by (metis prod.collapse)
  ultimately show ?thesis by blast
qed


theorem no_timestamp_iff_witness:
  "{''case_id'', ''step''} \<subseteq> set (columns ([unparsable_table] ! 0)) \<and>
   (\<exists>res h'. analyze_dataframe stable_lib 0 [unparsable_table] = (Inr res, h') \<and>
      (kpi res = Has_no_timestamp \<longleftrightarrow>
         ''timestamp'' \<notin> set (columns ([unparsable_table] ! 0)) \<or>
         (\<forall>r\<in>set (rows ([unparsable_table] ! 0)).
            isna (to_datetime (strptime stable_lib) (timestamp r)))))"
  using no_timestamp_iff[where df = 0 and lib = stable_lib and h = "[unparsable_table]"]
  by (simp add: unparsable_table_def)

subsection \<open>Index sorts are permutations\<close>

lemma length_somes_all: "\<forall>x\<in>set xs. x \<noteq> None \<Longrightarrow> length (somes xs) = length xs"
  by (induction xs rule: somes.induct) simp_all

lemma somes_map_Some: "somes (map Some xs) = xs"
  by (induction xs) simp_all

lemma mset_take_rows:
  assumes "mset indexer = mset [0..<length xs]"
  shows "mset (take_rows indexer xs) = mset xs"
proof -
  have "mset (map (\<lambda>i. xs ! i) indexer) = image_mset (\<lambda>i. xs ! i) (mset [0..<length xs])"
    using assms by (metis mset_map)
  also have "\<dots> = mset (map (\<lambda>i. xs ! i) [0..<length xs])" by simp
  also have "\<dots> = mset xs" by (simp add: map_nth)
  finally show ?thesis by (simp add: take_rows_def)
qed

lemma mset_map_nth_perm:
  assumes "mset js = mset [0..<length xs]"
  shows "mset (map (\<lambda>j. xs ! j) js) = mset xs"
  using mset_take_rows[OF assms] by (simp add: take_rows_def)

lemma mset_nargsort:
  assumes "argsort_ok argsort"
  shows "mset (nargsort argsort asc items) = mset [0..<length items]"
proof -
  define idx where "idx = [0..<length items]"
  define nn0 where "nn0 = filter (\<lambda>i. items ! i \<noteq> None) idx"
  define nn where "nn = (if asc then nn0 else rev nn0)"
  define vals where "vals = somes (map (\<lambda>i. items ! i) nn)"
  define ix where "ix = map (\<lambda>j. nn ! j) (argsort vals)"
  have len: "length vals = length nn"
    unfolding vals_def by (rule trans[OF length_somes_all]) (auto simp: nn_def nn0_def)
  have "mset (argsort vals) = mset [0..<length nn]"
    using assms len by (simp add: argsort_ok_def)
  then have p: "mset ix = mset nn"
    unfolding ix_def by (rule mset_map_nth_perm)
  have eq: "nargsort argsort asc items =
      (if asc then ix else rev ix) @ filter (\<lambda>i. items ! i = None) idx"
    by (cases asc) (simp_all only: nargsort_def Let_def idx_def nn0_def nn_def vals_def ix_def if_True if_False)
  have "mset (nargsort argsort asc items) = mset nn0 + mset (filter (\<lambda>i. \<not> items ! i \<noteq> None) idx)"
    unfolding eq using p by (simp add: nn_def)
  also have "\<dots> = mset idx"
    unfolding nn0_def mset_filter by (rule multiset_partition[symmetric])
  finally show ?thesis by (simp only: idx_def)
qed

subsection \<open>Occurrence counts\<close>

lemma distinct_unique: "distinct (unique xs)" and set_unique: "set (unique xs) = set xs"
  by (simp_all add: unique_def)

lemma sum_list_int_map: "sum_list (map (\<lambda>k. int (f k)) ks) = int (sum_list (map f ks))"
  by (induction ks) simp_all

lemma sum_counts_unique: "sum_list (map (\<lambda>k. int (count_list xs k)) (unique xs)) = int (length xs)"
proof -
  have "sum_list (map (count_list xs) (unique xs)) = sum (count_list xs) (set (unique xs))"
    by (rule sum_list_distinct_conv_sum_set[OF distinct_unique])
  also have "\<dots> = length xs"
    by (simp add: set_unique sum_count_set)
  finally show ?thesis by (simp only: sum_list_int_map)
qed

lemma zip_map_self: "zip ks (map f ks) = map (\<lambda>k. (k, f k)) ks"
  by (induction ks) simp_all

lemma value_counts_mset:
  assumes "argsort_ok argsort"
  shows "mset (value_counts argsort col) =
         mset (map (\<lambda>k. (k, int (count_list (somes col) k))) (unique (somes col)))"
proof -
  define keys where "keys = unique (somes col)"
  define counts where "counts = map (\<lambda>k. int (count_list (somes col) k)) keys"
  have z: "zip keys counts = map (\<lambda>k. (k, int (count_list (somes col) k))) keys"
    unfolding counts_def by (rule zip_map_self)
  have "length (map Some counts) = length (zip keys counts)"
    by (simp add: counts_def)
  then have "mset (nargsort argsort False (map Some counts)) = mset [0..<length (zip keys counts)]"
    using mset_nargsort[OF assms, of False "map Some counts"] by (simp only:)
  then have "mset (take_rows (nargsort argsort False (map Some counts)) (zip keys counts)) = mset (zip keys counts)"
    by (rule mset_take_rows)
  moreover have "value_counts argsort col = take_rows (nargsort argsort False (map Some counts)) (zip keys counts)"
    by (simp only: value_counts_def Let_def keys_def counts_def)
  ultimately have "mset (value_counts argsort col) =
      mset (map (\<lambda>k. (k, int (count_list (somes col) k))) keys)"
    by (simp only: z)
  then show ?thesis
    by (simp only: keys_def)
qed

lemma sum_list_mset_cong:
  fixes f :: "'a \<Rightarrow> 'b::comm_monoid_add"
  shows "mset xs = mset ys \<Longrightarrow> sum_list (map f xs) = sum_list (map f ys)"
proof -
  assume "mset xs = mset ys"
  then have "mset (map f xs) = mset (map f ys)" by simp
  then have "sum_mset (mset (map f xs)) = sum_mset (mset (map f ys))" by (simp only:)
  then show ?thesis by (simp only: sum_mset_sum_list)
qed

lemma value_counts_total:
  assumes "argsort_ok argsort"
  shows "sum_list (map snd (value_counts argsort col)) = int (length (somes col))"
  using sum_list_mset_cong[OF value_counts_mset[OF assms], of snd col] sum_counts_unique[of "somes col"]
  by (simp add: comp_def)

lemma mset_parsed_fields:
  "map case_id (parsed lib rs) = map case_id rs" "map step (parsed lib rs) = map step rs"
  by (simp_all add: parsed_def)

lemma mset_normalized:
  assumes "argsort_ok (argsort_case lib)"
  shows "mset (map case_id (normalized lib f)) = mset (map case_id (rows f))"
    and "mset (map step (normalized lib f)) = mset (map step (rows f))"
    and "length (normalized lib f) = length (rows f)"
proof -
  have a: "mset (sort_values_case_id (argsort_case lib) (rows f)) = mset (rows f)"
    unfolding sort_values_case_id_def
    by (rule mset_take_rows) (use mset_nargsort[OF assms, of True "map case_id (rows f)"] in simp)
  have b: "mset (sort_values_case_id_timestamp (parsed lib (rows f))) = mset (parsed lib (rows f))"
    by (simp add: sort_values_case_id_timestamp_def)
  have a1: "mset (map g (sort_values_case_id (argsort_case lib) (rows f))) = mset (map g (rows f))" for g :: "'a row \<Rightarrow> 'b"
    using a by simp
  have b1: "mset (map g (sort_values_case_id_timestamp (parsed lib (rows f)))) = mset (map g (parsed lib (rows f)))" for g :: "'a row \<Rightarrow> 'b"
    using b by simp
  show "mset (map case_id (normalized lib f)) = mset (map case_id (rows f))"
    by (simp add: normalized_def a1 b1 mset_parsed_fields del: mset_map)
  show "mset (map step (normalized lib f)) = mset (map step (rows f))"
    by (simp add: normalized_def a1 b1 mset_parsed_fields del: mset_map)
  have "length (sort_values_case_id (argsort_case lib) (rows f)) = length (rows f)"
    using a by (rule mset_eq_length)
  moreover have "length (sort_values_case_id_timestamp (parsed lib (rows f))) = length (rows f)"
    by (simp add: sort_values_case_id_timestamp_def parsed_def)
  ultimately show "length (normalized lib f) = length (rows f)"
    by (simp add: normalized_def)
qed

lemma argsort_ok_stable: "argsort_ok argsort_stable"
  by (simp add: argsort_ok_def argsort_stable_def sorted_sort_key del: mset_upt)

lemma mset_exchange_ends: "mset (exchange_ends f xs) = mset xs"
proof (induction f xs rule: exchange_ends.induct)
  case (3 f x y ys)
  have "mset (butlast (y # ys)) + {#last (y # ys)#} = mset (y # ys)"
    using append_butlast_last_id[of "y # ys"]
    by (metis list.distinct(1) mset.simps(1) mset.simps(2) mset_append union_mset_add_mset_right add.right_neutral)
  then show ?case
    using 3 by (simp add: Let_def)
qed simp_all

lemma argsort_ok_exchange: "argsort_ok argsort_exchange"
  by (simp add: argsort_ok_def argsort_exchange_def sorted_sort_key mset_exchange_ends del: mset_upt)

lemma lib_ok_stable: "lib_ok stable_lib"
  by (simp add: lib_ok_def stable_lib_def argsort_ok_stable)

lemma analyze_dataframe_returns:
  assumes "{''case_id'', ''step''} \<subseteq> set (columns (h ! df))"
  shows "analyze_dataframe lib df h =
           (Inr (projr (fst (analyze_dataframe lib df h))), snd (analyze_dataframe lib df h))"
  using analyze_dataframe_fst[OF assms, of lib]
  by (metis prod.collapse sum.sel(2))

subsection \<open>Count conservation\<close>

text \<open>
  C4: for every input table with both required columns and no missing \<open>step\<close> value, given
  a library sort that meets its contract, the analysis returns a result in which the counts
  of the nodes add up to \<open>num_events\<close>.
\<close>

theorem count_conservation:
  assumes cols: "{''case_id'', ''step''} \<subseteq> set (columns (h ! df))"
    and lib: "lib_ok lib"
    and steps: "\<forall>r\<in>set (rows (h ! df)). step r \<noteq> None"
  shows "\<exists>res h'. analyze_dataframe lib df h = (Inr res, h') \<and>
           sum_list (map n_count (nodes (graph res))) = num_events (stats res)"
proof -
  let ?E = "normalized lib (h ! df)"
  let ?res = "projr (fst (analyze_dataframe lib df h))"
  have ac: "argsort_ok (argsort_case lib)" and an: "argsort_ok (argsort_count lib)"
    using lib by (simp_all add: lib_ok_def)
  have "set (map step ?E) = set (map step (rows (h ! df)))"
    using mset_normalized(2)[OF ac, of "h ! df"] by (rule mset_eq_setD)
  then have "\<forall>x\<in>set (map step ?E). x \<noteq> None"
    using steps by auto
  then have len: "length (somes (map step ?E)) = length ?E"
    using length_somes_all[of "map step ?E"] by simp
  have "sum_list (map n_count (nodes (graph ?res))) =
          sum_list (map snd (value_counts (argsort_count lib) (map step ?E)))"
    by (simp add: analyze_dataframe_fst[OF cols] comp_def case_prod_beta)
  also have "\<dots> = int (length ?E)"
    using value_counts_total[OF an, of "map step ?E"] len by simp
  also have "\<dots> = num_events (stats ?res)"
    by (simp add: analyze_dataframe_fst[OF cols])
  finally have "sum_list (map n_count (nodes (graph ?res))) = num_events (stats ?res)" .
  then show ?thesis
    using analyze_dataframe_returns[OF cols, of lib] by blast
qed

theorem count_conservation_witness:
  "\<exists>res h'. analyze_dataframe stable_lib 0 [example_table] = (Inr res, h') \<and>
      sum_list (map n_count (nodes (graph res))) = num_events (stats res)"
  using count_conservation[where df = 0 and lib = stable_lib and h = "[example_table]"]
  by (simp add: lib_ok_stable example_table_def event_def)

subsection \<open>Edge observations\<close>

lemma counter_incr_total: "sum_list (map snd (counter_incr k cnt)) = sum_list (map snd cnt) + 1"
  by (induction k cnt rule: counter_incr.induct) simp_all

lemma foldl_counter_incr_total:
  "sum_list (map snd (foldl (\<lambda>cnt ab. counter_incr ab cnt) cnt ps)) =
     sum_list (map snd cnt) + int (length ps)"
  by (induction ps arbitrary: cnt) (simp_all add: counter_incr_total)

lemma count_case_edges_total:
  "sum_list (map snd (count_case_edges cnt cg)) =
     sum_list (map snd cnt) + int (length (snd cg) - 1)"
  by (simp add: count_case_edges_def Let_def foldl_counter_incr_total)

lemma foldl_count_case_edges_total:
  "sum_list (map snd (foldl count_case_edges cnt gs)) =
     sum_list (map snd cnt) + sum_list (map (\<lambda>cg. int (length (snd cg) - 1)) gs)"
  by (induction gs arbitrary: cnt) (simp_all add: count_case_edges_total)

lemma sum_list_indicator:
  "distinct ks \<Longrightarrow> sum_list (map (\<lambda>k. if k = a then 1 else 0) ks) = (if a \<in> set ks then 1 else (0::nat))"
  by (induction ks) auto

lemma sum_group_lengths:
  assumes "distinct ks"
  shows "set (somes (map key rs)) \<subseteq> set ks \<Longrightarrow>
     sum_list (map (\<lambda>k. length (filter (\<lambda>r. key r = Some k) rs)) ks) = length (somes (map key rs))"
proof (induction rs)
  case Nil
  then show ?case by simp
next
  case (Cons r rs)
  show ?case
  proof (cases "key r")
    case None
    with Cons show ?thesis by simp
  next
    case (Some a)
    with Cons.prems have a: "a \<in> set ks" and sub: "set (somes (map key rs)) \<subseteq> set ks"
      by simp_all
    have "sum_list (map (\<lambda>k. length (filter (\<lambda>r. key r = Some k) (r # rs))) ks) =
          sum_list (map (\<lambda>k. (if k = a then 1 else 0) + length (filter (\<lambda>r. key r = Some k) rs)) ks)"
      by (rule arg_cong[where f = sum_list], rule map_cong) (auto simp: Some)
    also have "\<dots> = sum_list (map (\<lambda>k. if k = a then 1 else 0) ks) +
                     sum_list (map (\<lambda>k. length (filter (\<lambda>r. key r = Some k) rs)) ks)"
      by (rule sum_list_addf)
    also have "\<dots> = 1 + length (somes (map key rs))"
      using sum_list_indicator[OF assms, of a] a Cons.IH[OF sub] by simp
    finally show ?thesis by (simp add: Some)
  qed
qed

lemma groupby_keys:
  "map fst (groupby key rs) = sort (remdups (somes (map key rs)))"
  by (simp add: groupby_def comp_def)

lemma groupby_member:
  "(c, g) \<in> set (groupby key rs) \<Longrightarrow>
     g = filter (\<lambda>r. key r = Some c) rs \<and> c \<in> set (somes (map key rs))"
  by (auto simp add: groupby_def)

lemma somes_member: "x \<in> set (somes xs) \<longleftrightarrow> Some x \<in> set xs"
  by (induction xs rule: somes.induct) auto

lemma groupby_nonempty: "(c, g) \<in> set (groupby key rs) \<Longrightarrow> g \<noteq> []"
proof -
  assume "(c, g) \<in> set (groupby key rs)"
  then have g: "g = filter (\<lambda>r. key r = Some c) rs" and "Some c \<in> set (map key rs)"
    using groupby_member[of c g key rs] by (simp_all add: somes_member)
  then obtain r where "r \<in> set rs" "key r = Some c" by auto
  then show ?thesis unfolding g by (auto simp: filter_empty_conv)
qed

lemma length_groupby: "length (groupby key rs) = nunique (map key rs)"
proof -
  have "length (groupby key rs) = card (set (somes (map key rs)))"
    by (simp add: groupby_def length_remdups_card_conv)
  also have "\<dots> = length (unique (somes (map key rs)))"
    using distinct_card[OF distinct_unique, of "somes (map key rs)"] by (simp add: set_unique)
  finally show ?thesis by (simp add: nunique_def)
qed

lemma groupby_total_length:
  "sum_list (map (\<lambda>cg. length (snd cg)) (groupby key rs)) = length (somes (map key rs))"
proof -
  let ?ks = "sort (remdups (somes (map key rs)))"
  have "sum_list (map (\<lambda>cg. length (snd cg)) (groupby key rs)) =
        sum_list (map (\<lambda>k. length (filter (\<lambda>r. key r = Some k) rs)) ?ks)"
    by (simp add: groupby_def comp_def)
  also have "\<dots> = length (somes (map key rs))"
    by (rule sum_group_lengths) simp_all
  finally show ?thesis .
qed

lemma sum_list_pred:
  assumes "\<forall>x\<in>set xs. 0 < f x"
  shows "sum_list (map (\<lambda>x. int (f x - 1)) xs) = int (sum_list (map f xs)) - int (length xs)"
  using assms by (induction xs) (simp_all add: of_nat_diff)

lemma count_edges_total:
  "sum_list (map snd (count_edges rs)) =
     int (length (somes (map case_id rs))) - int (nunique (map case_id rs))"
proof -
  have pos: "\<forall>cg\<in>set (groupby case_id rs). 0 < length (snd cg)"
    using groupby_nonempty[of _ _ case_id rs] by auto
  have "sum_list (map snd (count_edges rs)) =
        sum_list (map (\<lambda>cg. int (length (snd cg) - 1)) (groupby case_id rs))"
    by (simp add: count_edges_def foldl_count_case_edges_total)
  also have "\<dots> = int (sum_list (map (\<lambda>cg. length (snd cg)) (groupby case_id rs))) -
                   int (length (groupby case_id rs))"
    by (rule sum_list_pred[OF pos])
  finally show ?thesis
    by (simp only: groupby_total_length length_groupby)
qed

text \<open>
  C9: for every input table with both required columns and no missing \<open>case_id\<close> or \<open>step\<close>
  value, given a library sort that meets its contract, the analysis returns a result in
  which the counts of the edges add up to \<open>num_events\<close> minus \<open>num_cases\<close>.
\<close>

theorem edge_total:
  assumes cols: "{''case_id'', ''step''} \<subseteq> set (columns (h ! df))"
    and lib: "lib_ok lib"
    and nonnull: "\<forall>r\<in>set (rows (h ! df)). case_id r \<noteq> None \<and> step r \<noteq> None"
  shows "\<exists>res h'. analyze_dataframe lib df h = (Inr res, h') \<and>
           sum_list (map e_count (edges (graph res))) =
             num_events (stats res) - num_cases (stats res)"
proof -
  let ?E = "normalized lib (h ! df)"
  let ?res = "projr (fst (analyze_dataframe lib df h))"
  have ac: "argsort_ok (argsort_case lib)"
    using lib by (simp add: lib_ok_def)
  have "set (map case_id ?E) = set (map case_id (rows (h ! df)))"
    using mset_normalized(1)[OF ac, of "h ! df"] by (rule mset_eq_setD)
  then have "\<forall>x\<in>set (map case_id ?E). x \<noteq> None"
    using nonnull by auto
  then have len: "length (somes (map case_id ?E)) = length ?E"
    using length_somes_all[of "map case_id ?E"] by simp
  have "sum_list (map e_count (edges (graph ?res))) = sum_list (map snd (count_edges ?E))"
    by (simp add: analyze_dataframe_fst[OF cols] comp_def case_prod_beta)
  also have "\<dots> = int (length ?E) - int (nunique (map case_id ?E))"
    by (simp only: count_edges_total len)
  also have "\<dots> = num_events (stats ?res) - num_cases (stats ?res)"
    by (simp add: analyze_dataframe_fst[OF cols])
  finally have "sum_list (map e_count (edges (graph ?res))) =
      num_events (stats ?res) - num_cases (stats ?res)" .
  then show ?thesis
    using analyze_dataframe_returns[OF cols, of lib] by blast
qed

theorem edge_total_witness:
  "\<exists>res h'. analyze_dataframe stable_lib 0 [example_table] = (Inr res, h') \<and>
      sum_list (map e_count (edges (graph res))) = num_events (stats res) - num_cases (stats res)"
  using edge_total[where df = 0 and lib = stable_lib and h = "[example_table]"]
  by (simp add: lib_ok_stable example_table_def event_def)

subsection \<open>The edges and the node count of one case\<close>

lemma value_counts_lookup:
  assumes "argsort_ok argsort"
  shows "lookup_count (value_counts argsort col) s = int (count_list (somes col) s)"
proof -
  let ?vals = "somes col"
  let ?kvs = "map (\<lambda>k. (k, int (count_list ?vals k))) (unique ?vals)"
  have m: "mset (value_counts argsort col) = mset ?kvs"
    by (rule value_counts_mset[OF assms])
  have "mset (map fst (value_counts argsort col)) = mset (map fst ?kvs)"
    using m by (simp only: mset_map)
  also have "map fst ?kvs = unique ?vals"
    by (simp add: comp_def)
  finally have d: "distinct (map fst (value_counts argsort col))"
    using distinct_unique[of ?vals] mset_eq_imp_distinct_iff by blast
  have st: "set (value_counts argsort col) = set ?kvs"
    using m by (rule mset_eq_setD)
  show ?thesis
  proof (cases "s \<in> set ?vals")
    case True
    then have "(s, int (count_list ?vals s)) \<in> set (value_counts argsort col)"
      unfolding st by (simp add: set_unique image_iff)
    then have "map_of (value_counts argsort col) s = Some (int (count_list ?vals s))"
      using d by simp
    then show ?thesis by (simp add: lookup_count_def)
  next
    case False
    then have "s \<notin> fst ` set (value_counts argsort col)"
      unfolding st by (auto simp: set_unique)
    then have "map_of (value_counts argsort col) s = None"
      by (simp add: map_of_eq_None_iff)
    then show ?thesis using False by (simp add: lookup_count_def count_list_0_iff)
  qed
qed

lemma count_list_somes:
  "count_list (somes (map f rs)) s = length (filter (\<lambda>r. f r = Some s) rs)"
proof (induction rs)
  case Nil
  then show ?case by simp
next
  case (Cons r rs)
  then show ?case by (cases "f r") simp_all
qed

lemma length_filter_split:
  "length (filter Q rs) = length (filter Q (filter P rs)) + length (filter Q (filter (\<lambda>r. \<not> P r) rs))"
  by (induction rs) simp_all

text \<open>
  C7: in the normalized log, a case with \<open>k\<close> events adds at most \<open>k - 1\<close> edge observations
  to the edge counter; a case with a single event adds none and still counts one for its
  step: the node count of that step is one more than it is in the log without the case.
\<close>

theorem edge_bound:
  assumes norm: "normalize_events lib df h = (events, h1)"
    and grp: "(c, g) \<in> set (groupby case_id (rows (h1 ! events)))"
    and cnt: "argsort_ok (argsort_count lib)"
  shows "sum_list (map snd (count_case_edges edge_counter (c, g))) - sum_list (map snd edge_counter)
           \<le> int (length g) - 1 \<and>
         (length g = 1 \<longrightarrow>
            count_case_edges edge_counter (c, g) = edge_counter \<and>
            (\<forall>s. step (hd g) = Some s \<longrightarrow>
               lookup_count (value_counts (argsort_count lib) (map step (rows (h1 ! events)))) s =
               lookup_count (value_counts (argsort_count lib)
                 (map step (filter (\<lambda>r. case_id r \<noteq> Some c) (rows (h1 ! events))))) s + 1))"
proof -
  let ?E = "rows (h1 ! events)"
  have g: "g = filter (\<lambda>r. case_id r = Some c) ?E"
    using groupby_member[OF grp] by simp
  have ne: "g \<noteq> []"
    using groupby_nonempty[OF grp] .
  have bound: "sum_list (map snd (count_case_edges edge_counter (c, g))) - sum_list (map snd edge_counter)
           \<le> int (length g) - 1"
    using ne by (simp add: count_case_edges_total)
  have single: "count_case_edges edge_counter (c, g) = edge_counter" if "length g = 1"
  proof -
    from that obtain r where "g = [r]" by (cases g) auto
    then show ?thesis by (simp add: count_case_edges_def)
  qed
  have node: "lookup_count (value_counts (argsort_count lib) (map step ?E)) s =
              lookup_count (value_counts (argsort_count lib)
                 (map step (filter (\<lambda>r. case_id r \<noteq> Some c) ?E))) s + 1"
    if one: "length g = 1" and st: "step (hd g) = Some s" for s
  proof -
    from one obtain r where r: "g = [r]" by (cases g) auto
    have "length (filter (\<lambda>r. step r = Some s) ?E) =
          length (filter (\<lambda>r. step r = Some s) (filter (\<lambda>r. case_id r = Some c) ?E)) +
          length (filter (\<lambda>r. step r = Some s) (filter (\<lambda>r. \<not> case_id r = Some c) ?E))"
      by (rule length_filter_split)
    also have "filter (\<lambda>r. step r = Some s) (filter (\<lambda>r. case_id r = Some c) ?E) = [r]"
      using r st by (simp add: g[symmetric])
    finally have "length (filter (\<lambda>r. step r = Some s) ?E) =
        1 + length (filter (\<lambda>r. step r = Some s) (filter (\<lambda>r. case_id r \<noteq> Some c) ?E))"
      by simp
    then show ?thesis
      by (simp add: value_counts_lookup[OF cnt] count_list_somes)
  qed
  show ?thesis
    using bound single node by blast
qed

lemma two_case_normalized:
  "rows (snd (normalize_events stable_lib 0 [two_case_table]) !
         fst (normalize_events stable_lib 0 [two_case_table])) =
     [event 1 ''a'' NaT, event 1 ''b'' NaT, event 2 ''x'' NaT]"
  by code_simp

lemma two_case_groups:
  "groupby case_id [event 1 ''a'' NaT, event 1 ''b'' NaT, event 2 ''x'' NaT] =
     [(1, [event 1 ''a'' NaT, event 1 ''b'' NaT]), (2, [event 2 ''x'' NaT])]"
  by code_simp

theorem edge_bound_witness:
  "sum_list (map snd (count_case_edges [] (2::nat, [event 2 ''x'' NaT]))) - sum_list (map snd [])
     \<le> int (length [event 2 ''x'' NaT]) - 1 \<and>
   count_case_edges [] (2::nat, [event 2 ''x'' NaT]) = [] \<and>
   lookup_count (value_counts (argsort_count stable_lib)
     (map step (rows (snd (normalize_events stable_lib 0 [two_case_table]) !
                      fst (normalize_events stable_lib 0 [two_case_table]))))) ''x'' =
   lookup_count (value_counts (argsort_count stable_lib)
     (map step (filter (\<lambda>r. case_id r \<noteq> Some 2)
        (rows (snd (normalize_events stable_lib 0 [two_case_table]) !
               fst (normalize_events stable_lib 0 [two_case_table])))))) ''x'' + 1"
proof -
  let ?N = "normalize_events stable_lib 0 [two_case_table]"
  have n: "?N = (fst ?N, snd ?N)"
    by simp
  have g: "(2, [event 2 ''x'' NaT]) \<in> set (groupby case_id (rows (snd ?N ! fst ?N)))"
    unfolding two_case_normalized two_case_groups by simp
  have c: "argsort_ok (argsort_count stable_lib)"
    by (simp add: stable_lib_def argsort_ok_stable)
  have s: "step (hd [event 2 ''x'' NaT]) = Some ''x''"
    by (simp add: event_def)
  show ?thesis
    using edge_bound[OF n g c, of "[]"] s by simp
qed

subsection \<open>Cycle time of a log with usable timestamps\<close>

lemma floats_all_notna: "\<forall>x\<in>set xs. notna x \<Longrightarrow> length (floats xs) = length xs"
  by (induction xs rule: floats.induct) simp_all

lemma series_aggregates_float:
  assumes "\<forall>x\<in>set xs. notna x" and "xs \<noteq> []"
  shows "\<exists>a b c. series_mean xs = Float a \<and> series_min xs = Float b \<and> series_max xs = Float c"
proof -
  have "floats xs \<noteq> []"
    using floats_all_notna[OF assms(1)] assms(2) by auto
  then obtain q qs where "floats xs = q # qs"
    by (cases "floats xs") auto
  then show ?thesis
    by (simp add: series_mean_def series_min_def series_max_def)
qed

lemma ts_min_max_stamp:
  assumes "g \<noteq> []" and "\<forall>r\<in>set g. \<not> isna (timestamp r)"
  shows "\<exists>a b. ts_min (map timestamp g) = Stamp a \<and> ts_max (map timestamp g) = Stamp b"
proof -
  obtain r g' where g: "g = r # g'"
    using assms(1) by (cases g) auto
  then obtain t where "stamp_of (timestamp r) = Some t"
    using assms(2) by (auto simp: isna_def)
  then obtain ts where "somes (map stamp_of (map timestamp g)) = t # ts"
    by (simp add: g)
  then show ?thesis
    by (simp add: ts_min_def ts_max_def)
qed

lemma cycle_delta_hours_notna:
  assumes "\<forall>r\<in>set rs. \<not> isna (timestamp r)"
  shows "\<forall>x\<in>set (cycle_delta_hours rs). notna x"
proof
  fix x assume "x \<in> set (cycle_delta_hours rs)"
  then obtain c g where cg: "(c, g) \<in> set (groupby case_id rs)"
    and x: "x = hours_between (ts_min (map timestamp g)) (ts_max (map timestamp g))"
    by (auto simp: cycle_delta_hours_def)
  have "g \<noteq> []"
    using groupby_nonempty[OF cg] .
  moreover have "\<forall>r\<in>set g. \<not> isna (timestamp r)"
    using groupby_member[OF cg] assms by auto
  ultimately obtain a b where "ts_min (map timestamp g) = Stamp a" "ts_max (map timestamp g) = Stamp b"
    using ts_min_max_stamp by blast
  then show "notna x"
    by (simp add: x)
qed

lemma groupby_empty: "groupby key rs = [] \<longleftrightarrow> (\<forall>r\<in>set rs. key r = None)"
proof -
  have "set (map fst (groupby key rs)) = set (somes (map key rs))"
    by (simp add: groupby_keys)
  then have "groupby key rs = [] \<longleftrightarrow> set (somes (map key rs)) = {}"
    by (metis map_is_Nil_conv set_empty)
  also have "\<dots> \<longleftrightarrow> (\<forall>r\<in>set rs. key r = None)"
  proof
    assume e: "set (somes (map key rs)) = {}"
    show "\<forall>r\<in>set rs. key r = None"
    proof
      fix r assume r: "r \<in> set rs"
      show "key r = None"
      proof (cases "key r")
        case (Some k)
        then have "k \<in> set (somes (map key rs))"
          using r by (simp add: somes_member image_iff) (metis)
        then show ?thesis using e by simp
      qed simp
    qed
  next
    assume "\<forall>r\<in>set rs. key r = None"
    then have "somes (map key rs) = []"
      by (induction rs) simp_all
    then show "set (somes (map key rs)) = {}"
      by simp
  qed
  finally show ?thesis .
qed

lemma cycle_delta_hours_empty:
  "cycle_delta_hours rs = [] \<longleftrightarrow> (\<forall>r\<in>set rs. case_id r = None)"
  by (simp add: cycle_delta_hours_def groupby_empty)

lemma round2_float: "\<exists>q. round2 (Float a) = Float q"
  by (intro exI) (rule round2.simps)

lemma compute_kpis_cycle_time:
  assumes "fst (compute_kpis lib events h) = Has_timestamp k"
  shows "cycle_time k =
     cycle_time_of (cycle_delta_hours
       (filter (\<lambda>r. \<not> isna (timestamp r)) (parsed lib (rows (h ! events)))))"
proof (cases "''timestamp'' \<notin> set (columns (h ! events)) \<or>
         list_all isna (map timestamp (parsed lib (rows (h ! events))))")
  case True
  then have "fst (compute_kpis lib events h) = Has_no_timestamp"
    by (simp only: compute_kpis_fst if_True)
  then show ?thesis
    using assms by simp
next
  case False
  then have "\<exists>sd ss td ts. fst (compute_kpis lib events h) =
      Has_timestamp \<lparr>cycle_time = cycle_time_of (cycle_delta_hours
          (filter (\<lambda>r. \<not> isna (timestamp r)) (parsed lib (rows (h ! events))))),
        steps_duration = sd, slowest_steps = ss,
        transitions_duration = td, slowest_transitions = ts\<rparr>"
    by (simp only: compute_kpis_fst if_False Let_def) blast
  then obtain sd ss td ts where "Has_timestamp k =
      Has_timestamp \<lparr>cycle_time = cycle_time_of (cycle_delta_hours
          (filter (\<lambda>r. \<not> isna (timestamp r)) (parsed lib (rows (h ! events))))),
        steps_duration = sd, slowest_steps = ss,
        transitions_duration = td, slowest_transitions = ts\<rparr>"
    using assms by auto
  then have "k = \<lparr>cycle_time = cycle_time_of (cycle_delta_hours
          (filter (\<lambda>r. \<not> isna (timestamp r)) (parsed lib (rows (h ! events))))),
        steps_duration = sd, slowest_steps = ss,
        transitions_duration = td, slowest_transitions = ts\<rparr>"
    by (simp only: kpi_result.inject)
  then show ?thesis
    by simp
qed

lemma dropped_case_ids:
  "(\<forall>r\<in>set (filter (\<lambda>r. \<not> isna (timestamp r)) (parsed lib rs)). case_id r = None) \<longleftrightarrow>
   (\<forall>r\<in>set rs. \<not> isna (to_datetime (strptime lib) (timestamp r)) \<longrightarrow> case_id r = None)"
  by (induction rs) (simp_all add: parsed_def)

text \<open>
  C10, as the code has it: whenever the KPI computation returns a result with
  \<open>has_timestamp\<close> true, the three cycle-time fields are numbers if some row with a usable
  timestamp has a \<open>case_id\<close>; if every row with a usable timestamp has a missing \<open>case_id\<close>,
  no case is left to aggregate and the three fields are null.
\<close>

theorem cycle_time_defined:
  assumes "fst (compute_kpis lib events h) = Has_timestamp k"
  shows "((\<exists>r\<in>set (rows (h ! events)).
             \<not> isna (to_datetime (strptime lib) (timestamp r)) \<and> case_id r \<noteq> None) \<longrightarrow>
          (\<exists>a b c. cycle_time k =
             \<lparr>avg_hours = Some (Float a), min_hours = Some (Float b), max_hours = Some (Float c)\<rparr>)) \<and>
         ((\<forall>r\<in>set (rows (h ! events)).
             \<not> isna (to_datetime (strptime lib) (timestamp r)) \<longrightarrow> case_id r = None) \<longrightarrow>
          cycle_time k = \<lparr>avg_hours = None, min_hours = None, max_hours = None\<rparr>)"
proof -
  let ?D = "filter (\<lambda>r. \<not> isna (timestamp r)) (parsed lib (rows (h ! events)))"
  let ?C = "cycle_delta_hours ?D"
  have ct: "cycle_time k = cycle_time_of ?C"
    using compute_kpis_cycle_time[OF assms] .
  have empty: "?C = [] \<longleftrightarrow>
      (\<forall>r\<in>set (rows (h ! events)).
          \<not> isna (to_datetime (strptime lib) (timestamp r)) \<longrightarrow> case_id r = None)"
    unfolding cycle_delta_hours_empty by (rule dropped_case_ids)
  have some: "\<exists>a b c. cycle_time_of ?C =
      \<lparr>avg_hours = Some (Float a), min_hours = Some (Float b), max_hours = Some (Float c)\<rparr>"
    if ne: "?C \<noteq> []"
  proof -
    have "\<forall>x\<in>set ?C. notna x"
      by (rule cycle_delta_hours_notna) simp
    then obtain a b c where "series_mean ?C = Float a" "series_min ?C = Float b" "series_max ?C = Float c"
      using series_aggregates_float[OF _ ne] by blast
    moreover obtain a' b' c' where
      "round2 (Float a) = Float a'" "round2 (Float b) = Float b'" "round2 (Float c) = Float c'"
      using round2_float by blast
    ultimately show ?thesis
      using ne by (simp add: cycle_time_of_def del: round2.simps)
  qed
  have none: "cycle_time_of ?C = \<lparr>avg_hours = None, min_hours = None, max_hours = None\<rparr>"
    if "?C = []"
    using that by (simp add: cycle_time_of_def)
  show ?thesis
  proof (intro conjI impI)
    assume "\<exists>r\<in>set (rows (h ! events)).
              \<not> isna (to_datetime (strptime lib) (timestamp r)) \<and> case_id r \<noteq> None"
    then have "?C \<noteq> []"
      by (simp add: empty)
    then show "\<exists>a b c. cycle_time k =
        \<lparr>avg_hours = Some (Float a), min_hours = Some (Float b), max_hours = Some (Float c)\<rparr>"
      unfolding ct by (rule some)
  next
    assume "\<forall>r\<in>set (rows (h ! events)).
              \<not> isna (to_datetime (strptime lib) (timestamp r)) \<longrightarrow> case_id r = None"
    then have "?C = []"
      by (simp add: empty)
    then show "cycle_time k = \<lparr>avg_hours = None, min_hours = None, max_hours = None\<rparr>"
      unfolding ct by (rule none)
  qed
qed

lemma compute_kpis_has_timestamp:
  assumes "''timestamp'' \<in> set (columns (h ! events))"
    and "\<not> list_all isna (map timestamp (parsed lib (rows (h ! events))))"
  shows "\<exists>k. fst (compute_kpis lib events h) = Has_timestamp k"
  using assms by (simp add: compute_kpis_fst Let_def)

theorem cycle_time_defined_witness:
  "\<exists>k a b c. fst (compute_kpis stable_lib 0 [example_table]) = Has_timestamp k \<and>
      cycle_time k =
        \<lparr>avg_hours = Some (Float a), min_hours = Some (Float b), max_hours = Some (Float c)\<rparr>"
proof -
  have "''timestamp'' \<in> set (columns ([example_table] ! 0))"
    by (simp add: example_table_def)
  moreover have "\<not> list_all isna (map timestamp (parsed stable_lib (rows ([example_table] ! 0))))"
    by (simp add: example_table_def event_def parsed_def isna_def)
  ultimately obtain k where k: "fst (compute_kpis stable_lib 0 [example_table]) = Has_timestamp k"
    using compute_kpis_has_timestamp by blast
  have "\<exists>r\<in>set (rows ([example_table] ! 0)).
          \<not> isna (to_datetime (strptime stable_lib) (timestamp r)) \<and> case_id r \<noteq> None"
    by (simp add: example_table_def event_def isna_def)
  then obtain a b c where "cycle_time k =
      \<lparr>avg_hours = Some (Float a), min_hours = Some (Float b), max_hours = Some (Float c)\<rparr>"
    using cycle_time_defined[OF k] by blast
  then show ?thesis
    using k by blast
qed

theorem cycle_time_null_counterexample:
  "fst (compute_kpis stable_lib 0 [null_case_table]) =
     Has_timestamp
       \<lparr>cycle_time = \<lparr>avg_hours = None, min_hours = None, max_hours = None\<rparr>,
        steps_duration = [], slowest_steps = [],
        transitions_duration = [], slowest_transitions = []\<rparr>"
  unfolding compute_kpis_fst by code_simp

subsection \<open>The order of the nodes\<close>

lemma insort_key_map: "map g (insort_key (\<lambda>y. f (g y)) x xs) = insort_key f (g x) (map g xs)"
  by (induction xs) simp_all

lemma sort_key_map: "map g (sort_key (\<lambda>y. f (g y)) xs) = sort_key f (map g xs)"
  by (induction xs) (simp_all add: insort_key_map)

lemma insort_key_cong_set:
  "f x = g x \<Longrightarrow> (\<And>y. y \<in> set ys \<Longrightarrow> f y = g y) \<Longrightarrow> insort_key f x ys = insort_key g x ys"
  by (induction ys) simp_all

lemma sort_key_cong_set:
  "(\<And>x. x \<in> set xs \<Longrightarrow> f x = g x) \<Longrightarrow> sort_key f xs = sort_key g xs"
proof (induction xs)
  case Nil
  then show ?case by simp
next
  case (Cons x xs)
  have "sort_key f xs = sort_key g xs"
    using Cons by simp
  moreover have "insort_key f x (sort_key g xs) = insort_key g x (sort_key g xs)"
    by (rule insort_key_cong_set) (use Cons.prems in simp_all)
  ultimately show ?case by simp
qed

lemma take_rows_argsort_stable: "take_rows (argsort_stable (map f xs)) xs = sort_key f xs"
proof -
  have "sort_key (\<lambda>i. map f xs ! i) [0..<length xs] = sort_key (\<lambda>i. f (xs ! i)) [0..<length xs]"
    by (rule sort_key_cong_set) simp
  then have "take_rows (argsort_stable (map f xs)) xs =
      map (\<lambda>i. xs ! i) (sort_key (\<lambda>i. f (xs ! i)) [0..<length xs])"
    by (simp add: take_rows_def argsort_stable_def)
  also have "\<dots> = sort_key f (map (\<lambda>i. xs ! i) [0..<length xs])"
    by (rule sort_key_map)
  finally show ?thesis
    by (simp add: map_nth)
qed

lemma argsort_in_range:
  assumes "argsort_ok argsort" and "j \<in> set (argsort ks)"
  shows "j < length ks"
proof -
  have "set (argsort ks) = set [0..<length ks]"
    using assms(1) by (metis argsort_ok_def mset_eq_setD)
  then show ?thesis
    using assms(2) by simp
qed

lemma nargsort_desc_no_nan:
  "nargsort argsort False (map Some ks) =
     rev (map (\<lambda>j. rev [0..<length ks] ! j) (argsort (rev ks)))"
proof -
  have all: "filter (\<lambda>i. map Some ks ! i \<noteq> None) [0..<length ks] = [0..<length ks]"
    by (rule filter_True) simp
  have none: "filter (\<lambda>i. map Some ks ! i = None) [0..<length ks] = []"
    by (simp add: filter_empty_conv)
  have "map (\<lambda>i. map Some ks ! i) (rev [0..<length ks]) = rev (map (\<lambda>i. map Some ks ! i) [0..<length ks])"
    by (simp add: rev_map)
  also have "map (\<lambda>i. map Some ks ! i) [0..<length ks] = map Some ks"
    using map_nth[of "map Some ks"] by simp
  finally have "map (\<lambda>i. map Some ks ! i) (rev [0..<length ks]) = map Some (rev ks)"
    by (simp only: rev_map)
  then have vals: "somes (map (\<lambda>i. map Some ks ! i) (rev [0..<length ks])) = rev ks"
    by (simp only: somes_map_Some)
  show ?thesis
    by (simp add: nargsort_def Let_def all none vals)
qed

lemma value_counts_desc:
  assumes "argsort_ok argsort"
  shows "value_counts argsort col =
     rev (take_rows
            (argsort (map snd (rev (map (\<lambda>k. (k, int (count_list (somes col) k))) (unique (somes col))))))
            (rev (map (\<lambda>k. (k, int (count_list (somes col) k))) (unique (somes col)))))"
proof -
  define zs where "zs = map (\<lambda>k. (k, int (count_list (somes col) k))) (unique (somes col))"
  define counts where "counts = map (\<lambda>k. int (count_list (somes col) k)) (unique (somes col))"
  have z: "zip (unique (somes col)) counts = zs"
    unfolding counts_def zs_def by (rule zip_map_self)
  have c: "counts = map snd zs"
    by (simp add: counts_def zs_def comp_def)
  have n: "length counts = length zs"
    by (simp add: c)
  have vc: "value_counts argsort col =
      map (\<lambda>i. zs ! i) (rev (map (\<lambda>j. rev [0..<length zs] ! j) (argsort (rev counts))))"
    by (simp only: value_counts_def Let_def counts_def[symmetric] z nargsort_desc_no_nan take_rows_def n)
  have "map (\<lambda>j. zs ! (rev [0..<length zs] ! j)) (argsort (rev counts)) =
        map (\<lambda>j. rev zs ! j) (argsort (rev counts))"
  proof (rule map_cong[OF refl])
    fix j assume "j \<in> set (argsort (rev counts))"
    then have "j < length zs"
      using argsort_in_range[OF assms, of j "rev counts"] n by simp
    then show "zs ! (rev [0..<length zs] ! j) = rev zs ! j"
      by (simp add: rev_nth)
  qed
  then have "map (\<lambda>i. zs ! i) (map (\<lambda>j. rev [0..<length zs] ! j) (argsort (rev counts))) =
        map (\<lambda>j. rev zs ! j) (argsort (rev counts))"
    by (simp add: comp_def)
  then have "value_counts argsort col = rev (map (\<lambda>j. rev zs ! j) (argsort (rev counts)))"
    unfolding vc by (simp add: rev_map)
  then show ?thesis
    by (simp add: take_rows_def c rev_map zs_def[symmetric])
qed

lemma value_counts_sorted:
  assumes "argsort_ok argsort"
  shows "sorted (rev (map snd (value_counts argsort col)))"
proof -
  define rz where "rz = rev (map (\<lambda>k. (k, int (count_list (somes col) k))) (unique (somes col)))"
  have "map snd (take_rows (argsort (map snd rz)) rz) =
        map (\<lambda>j. map snd rz ! j) (argsort (map snd rz))"
    unfolding take_rows_def map_map comp_def
  proof (rule map_cong[OF refl])
    fix j assume "j \<in> set (argsort (map snd rz))"
    then have "j < length rz"
      using argsort_in_range[OF assms, of j "map snd rz"] by simp
    then show "snd (rz ! j) = map snd rz ! j"
      by simp
  qed
  moreover have "sorted (map (\<lambda>j. map snd rz ! j) (argsort (map snd rz)))"
    using assms by (simp add: argsort_ok_def)
  ultimately have "sorted (map snd (take_rows (argsort (map snd rz)) rz))"
    by simp
  then show ?thesis
    unfolding value_counts_desc[OF assms] rz_def[symmetric] by (simp add: rev_map)
qed

lemma value_counts_stable_ties:
  "map fst (filter (\<lambda>z. snd z = c) (value_counts argsort_stable col)) =
     filter (\<lambda>k. int (count_list (somes col) k) = c) (unique (somes col))"
proof -
  define zs where "zs = map (\<lambda>k. (k, int (count_list (somes col) k))) (unique (somes col))"
  have "value_counts argsort_stable col = rev (sort_key snd (rev zs))"
    unfolding value_counts_desc[OF argsort_ok_stable] zs_def[symmetric]
    by (simp only: take_rows_argsort_stable)
  then have "filter (\<lambda>z. snd z = c) (value_counts argsort_stable col) =
             rev (filter (\<lambda>z. snd z = c) (sort_key snd (rev zs)))"
    by (simp only: rev_filter)
  also have "\<dots> = rev (filter (\<lambda>z. snd z = c) (rev zs))"
    by (simp only: sort_key_stable)
  also have "\<dots> = filter (\<lambda>z. snd z = c) zs"
    by (simp only: rev_filter rev_rev_ident)
  finally show ?thesis
    by (simp add: zs_def filter_map comp_def)
qed

lemma sorted_wrt_nodes:
  "sorted_wrt (\<lambda>a b. n_count b \<le> n_count a) (map (\<lambda>(s, c). \<lparr>n_id = s, n_count = c\<rparr>) kvs) \<longleftrightarrow>
   sorted (rev (map snd kvs))"
proof -
  have "sorted (rev (map snd kvs)) \<longleftrightarrow> sorted_wrt (\<lambda>a b. b \<le> a) (map snd kvs)"
    by (simp add: sorted_wrt_rev)
  also have "\<dots> \<longleftrightarrow> sorted_wrt (\<lambda>a b. snd b \<le> snd a) kvs"
    by (simp add: sorted_wrt_map)
  finally show ?thesis
    by (simp add: sorted_wrt_map case_prod_beta)
qed

lemma nodes_ties:
  "map n_id (filter (\<lambda>n. n_count n = c) (map (\<lambda>(s, c). \<lparr>n_id = s, n_count = c\<rparr>) kvs)) =
   map fst (filter (\<lambda>z. snd z = c) kvs)"
  by (induction kvs) auto

text \<open>
  C3, as the code has it: for every input table with both required columns, given a
  library sort that meets its contract, the nodes of the graph are in descending order of
  their count; and when the sort of the counts keeps ties in place, nodes with equal counts
  appear in the order in which their labels are first seen in the normalized log, that is
  after the rows were sorted by case, not in the order of the input table.
\<close>

theorem nodes_order:
  assumes cols: "{''case_id'', ''step''} \<subseteq> set (columns (h ! df))"
    and lib: "lib_ok lib"
  shows "\<exists>res h'. analyze_dataframe lib df h = (Inr res, h') \<and>
           sorted_wrt (\<lambda>a b. n_count b \<le> n_count a) (nodes (graph res)) \<and>
           (argsort_count lib = argsort_stable \<longrightarrow>
              (\<forall>c. map n_id (filter (\<lambda>n. n_count n = c) (nodes (graph res))) =
                 filter (\<lambda>s. int (count_list (somes (map step
                     (rows (snd (normalize_events lib df h) ! fst (normalize_events lib df h))))) s) = c)
                   (unique (somes (map step
                     (rows (snd (normalize_events lib df h) ! fst (normalize_events lib df h))))))))"
proof -
  let ?E = "normalized lib (h ! df)"
  let ?res = "projr (fst (analyze_dataframe lib df h))"
  have an: "argsort_ok (argsort_count lib)"
    using lib by (simp add: lib_ok_def)
  have E: "rows (snd (normalize_events lib df h) ! fst (normalize_events lib df h)) = ?E"
    by (simp add: normalize_rows normalized_def)
  have nodes: "nodes (graph ?res) =
      map (\<lambda>(s, c). \<lparr>n_id = s, n_count = c\<rparr>) (value_counts (argsort_count lib) (map step ?E))"
    by (simp add: analyze_dataframe_fst[OF cols])
  have srt: "sorted_wrt (\<lambda>a b. n_count b \<le> n_count a) (nodes (graph ?res))"
    unfolding nodes sorted_wrt_nodes by (rule value_counts_sorted[OF an])
  have ties: "map n_id (filter (\<lambda>n. n_count n = c) (nodes (graph ?res))) =
      filter (\<lambda>s. int (count_list (somes (map step ?E)) s) = c) (unique (somes (map step ?E)))"
    if "argsort_count lib = argsort_stable" for c
    unfolding nodes nodes_ties that by (rule value_counts_stable_ties)
  show ?thesis
    unfolding E using analyze_dataframe_returns[OF cols, of lib] srt ties by blast
qed

theorem nodes_order_witness:
  "\<exists>res h'. analyze_dataframe stable_lib 0 [example_table] = (Inr res, h') \<and>
      sorted_wrt (\<lambda>a b. n_count b \<le> n_count a) (nodes (graph res)) \<and>
      (\<forall>c. map n_id (filter (\<lambda>n. n_count n = c) (nodes (graph res))) =
         filter (\<lambda>s. int (count_list (somes (map step
             (rows (snd (normalize_events stable_lib 0 [example_table]) !
                    fst (normalize_events stable_lib 0 [example_table]))))) s) = c)
           (unique (somes (map step
             (rows (snd (normalize_events stable_lib 0 [example_table]) !
                    fst (normalize_events stable_lib 0 [example_table])))))))"
proof -
  have p: "argsort_count stable_lib = argsort_stable"
    by (simp add: stable_lib_def)
  have c: "{''case_id'', ''step''} \<subseteq> set (columns ([example_table] ! 0))"
    by (simp add: example_table_def)
  show ?thesis
    using nodes_order[OF c lib_ok_stable] p by simp
qed

lemma swapped_counts:
  "value_counts (argsort_count stable_lib) (map step (normalized stable_lib swapped_table)) =
     [(''A'', 1), (''B'', 1)]"
  by code_simp

theorem nodes_order_counterexample:
  "map step (rows swapped_table) = [Some ''B'', Some ''A''] \<and>
   map (\<lambda>n. (n_id n, n_count n))
     (nodes (graph (projr (fst (analyze_dataframe stable_lib 0 [swapped_table]))))) =
     [(''A'', 1), (''B'', 1)]"
proof -
  have c: "{''case_id'', ''step''} \<subseteq> set (columns ([swapped_table] ! 0))"
    by (simp add: swapped_table_def)
  have "nodes (graph (projr (fst (analyze_dataframe stable_lib 0 [swapped_table])))) =
      map (\<lambda>(s, c). \<lparr>n_id = s, n_count = c\<rparr>)
        (value_counts (argsort_count stable_lib) (map step (normalized stable_lib swapped_table)))"
    by (simp add: analyze_dataframe_fst[OF c])
  then have "map (\<lambda>n. (n_id n, n_count n))
     (nodes (graph (projr (fst (analyze_dataframe stable_lib 0 [swapped_table]))))) =
     [(''A'', 1), (''B'', 1)]"
    by (simp only: swapped_counts) simp
  moreover have "map step (rows swapped_table) = [Some ''B'', Some ''A'']"
    by (simp add: swapped_table_def event_def)
  ultimately show ?thesis
    by (rule conjI[rotated])
qed

subsection \<open>Gaps between consecutive events of a case\<close>










lemma sorted_lex: "sorted (map lex_key (sort_values_case_id_timestamp rs))"
  by (simp add: sort_values_case_id_timestamp_def)

lemma mset_sort_lex: "mset (sort_values_case_id_timestamp rs) = mset rs"
  by (simp add: sort_values_case_id_timestamp_def)




subsection \<open>A case whose timestamps go backward\<close>










subsection \<open>Cycle time from the earliest and the latest timestamp\<close>











subsection \<open>The sort of the events\<close>

lemma map_Some_somes: "\<forall>x\<in>set xs. x \<noteq> None \<Longrightarrow> map Some (somes xs) = xs"
  by (induction xs rule: somes.induct) simp_all

lemma nargsort_sorted:
  assumes ok: "argsort_ok f"
  shows "sorted (map (\<lambda>i. na_last (keys ! i)) (nargsort f True keys))"
proof -
  define nn where "nn = filter (\<lambda>i. keys ! i \<noteq> None) [0..<length keys]"
  define nan where "nan = filter (\<lambda>i. keys ! i = None) [0..<length keys]"
  define vals where "vals = somes (map (\<lambda>i. keys ! i) nn)"
  have eq: "nargsort f True keys = map (\<lambda>j. nn ! j) (f vals) @ nan"
    by (simp only: nargsort_def Let_def nn_def nan_def vals_def if_True)
  have all: "\<forall>x\<in>set (map (\<lambda>i. keys ! i) nn). x \<noteq> None"
    by (simp add: nn_def)
  have A: "map (\<lambda>i. keys ! i) nn = map Some vals"
    unfolding vals_def by (rule map_Some_somes[OF all, symmetric])
  have len: "length vals = length nn"
    using arg_cong[OF A, of length] by simp
  have key: "keys ! (nn ! j) = Some (vals ! j)" if "j < length nn" for j
    using arg_cong[OF A, of "\<lambda>xs. xs ! j"] that len by simp
  have "map (\<lambda>i. na_last (keys ! i)) (map (\<lambda>j. nn ! j) (f vals)) =
        map (\<lambda>v. (False, Some v)) (map (\<lambda>j. vals ! j) (f vals))"
    unfolding map_map comp_def
  proof (rule map_cong[OF refl])
    fix j assume "j \<in> set (f vals)"
    then have "j < length nn"
      using argsort_in_range[OF ok, of j vals] len by simp
    then show "na_last (keys ! (nn ! j)) = (False, Some (vals ! j))"
      by (simp add: key na_last_def)
  qed
  moreover have "map (\<lambda>i. na_last (keys ! i)) nan = map (\<lambda>i. (True, None)) nan"
    by (rule map_cong[OF refl]) (simp add: nan_def na_last_def)
  ultimately have m: "map (\<lambda>i. na_last (keys ! i)) (nargsort f True keys) =
      map (\<lambda>v. (False, Some v)) (map (\<lambda>j. vals ! j) (f vals)) @ map (\<lambda>i. (True, None)) nan"
    by (simp only: eq map_append)
  have s: "sorted (map (\<lambda>j. vals ! j) (f vals))"
    using ok by (simp add: argsort_ok_def)
  have "sorted (map (\<lambda>v. (False, Some v)) (map (\<lambda>j. vals ! j) (f vals)))"
    using s by (simp add: sorted_map comp_def sorted_wrt_map)
  moreover have "sorted (map (\<lambda>i. (True, None :: 'a option)) nan)"
    by (induction nan) simp_all
  ultimately show ?thesis
    unfolding m by (auto simp add: sorted_append)
qed

lemma sort_values_case_id_sorted:
  assumes "argsort_ok f"
  shows "sorted (map (\<lambda>r. na_last (case_id r)) (sort_values_case_id f rs))"
proof -
  let ?ix = "nargsort f True (map case_id rs)"
  have "map (\<lambda>r. na_last (case_id r)) (map (\<lambda>i. rs ! i) ?ix) =
        map (\<lambda>i. na_last (map case_id rs ! i)) ?ix"
    unfolding map_map comp_def
  proof (rule map_cong[OF refl])
    fix i assume "i \<in> set ?ix"
    moreover have "set ?ix = set [0..<length (map case_id rs)]"
      using mset_nargsort[OF assms, of True "map case_id rs"] by (rule mset_eq_setD)
    ultimately have "i < length rs"
      by simp
    then show "na_last (case_id (rs ! i)) = na_last (map case_id rs ! i)"
      by simp
  qed
  then show ?thesis
    using nargsort_sorted[OF assms, of "map case_id rs"]
    by (simp only: sort_values_case_id_def take_rows_def)
qed

text \<open>
  What the sort of lines 126 to 130 guarantees. With a \<open>timestamp\<close> column the rows are
  sorted by case and timestamp, missing values last, and rows with the same key keep their
  order; when no timestamp is usable that keeps the order of the rows of each case. Without
  the column the rows are sorted by case, and nothing more follows from the contract of the
  library sort.
\<close>

lemma sort_with_timestamp:
  assumes "''timestamp'' \<in> set (columns (h ! df))"
    and "normalize_events lib df h = (events, h1)"
  shows "mset (rows (h1 ! events)) = mset (parsed lib (rows (h ! df)))"
    and "sorted (map lex_key (rows (h1 ! events)))"
    and "filter (\<lambda>r. lex_key r = k) (rows (h1 ! events)) =
         filter (\<lambda>r. lex_key r = k) (parsed lib (rows (h ! df)))"
proof -
  have E: "rows (h1 ! events) = sort_values_case_id_timestamp (parsed lib (rows (h ! df)))"
    using normalize_rows[of lib df h] assms by simp
  show "mset (rows (h1 ! events)) = mset (parsed lib (rows (h ! df)))"
    unfolding E by (rule mset_sort_lex)
  show "sorted (map lex_key (rows (h1 ! events)))"
    unfolding E by (rule sorted_lex)
  show "filter (\<lambda>r. lex_key r = k) (rows (h1 ! events)) =
         filter (\<lambda>r. lex_key r = k) (parsed lib (rows (h ! df)))"
    unfolding E sort_values_case_id_timestamp_def by (rule sort_key_stable)
qed

lemma sort_with_unusable_timestamps:
  assumes col: "''timestamp'' \<in> set (columns (h ! df))"
    and norm: "normalize_events lib df h = (events, h1)"
    and none: "\<forall>r\<in>set (rows (h ! df)). isna (to_datetime (strptime lib) (timestamp r))"
  shows "filter (\<lambda>r. case_id r = c) (rows (h1 ! events)) =
         filter (\<lambda>r. case_id r = c) (parsed lib (rows (h ! df)))"
proof -
  let ?P = "parsed lib (rows (h ! df))"
  let ?k = "(na_last c, (True, None))"
  have na: "\<forall>r\<in>set ?P. isna (timestamp r)"
    using none by (simp add: parsed_def)
  have key: "lex_key r = ?k \<longleftrightarrow> case_id r = c" if "r \<in> set ?P" for r
    using na that by (auto simp add: lex_key_def na_last_def isna_def)
  have "set (rows (h1 ! events)) = set ?P"
    using sort_with_timestamp(1)[OF col norm] by (rule mset_eq_setD)
  then have "filter (\<lambda>r. case_id r = c) (rows (h1 ! events)) =
             filter (\<lambda>r. lex_key r = ?k) (rows (h1 ! events))"
    using key by (intro filter_cong) simp_all
  also have "\<dots> = filter (\<lambda>r. lex_key r = ?k) ?P"
    by (rule sort_with_timestamp(3)[OF col norm])
  also have "\<dots> = filter (\<lambda>r. case_id r = c) ?P"
    using key by (intro filter_cong) simp_all
  finally show ?thesis .
qed

lemma sort_without_timestamp:
  assumes "''timestamp'' \<notin> set (columns (h ! df))"
    and "normalize_events lib df h = (events, h1)"
    and ok: "argsort_ok (argsort_case lib)"
  shows "mset (rows (h1 ! events)) = mset (rows (h ! df))"
    and "sorted (map (\<lambda>r. na_last (case_id r)) (rows (h1 ! events)))"
proof -
  have E: "rows (h1 ! events) = sort_values_case_id (argsort_case lib) (rows (h ! df))"
    using normalize_rows[of lib df h] assms by simp
  show "mset (rows (h1 ! events)) = mset (rows (h ! df))"
    unfolding E sort_values_case_id_def
    by (rule mset_take_rows) (use mset_nargsort[OF ok, of True "map case_id (rows (h ! df))"] in simp)
  show "sorted (map (\<lambda>r. na_last (case_id r)) (rows (h1 ! events)))"
    unfolding E by (rule sort_values_case_id_sorted[OF ok])
qed

lemma lib_ok_exchange: "lib_ok exchange_lib"
  by (simp add: lib_ok_def exchange_lib_def stable_lib_def argsort_ok_stable argsort_ok_exchange)

text \<open>
  The exchanging sort on columns of case identifiers: equal identifiers stay as they are,
  two pairs in descending order come back with each pair turned around.
\<close>

lemma argsort_exchange_equal_keys:
  "argsort_exchange [1 :: nat, 1] = [0, 1] \<and>
   argsort_exchange (replicate 18 (1 :: nat)) = [0..<18]"
  by code_simp

lemma argsort_exchange_two_pairs:
  "argsort_exchange [2 :: nat, 2, 1, 1] = [3, 2, 1, 0] \<and>
   argsort_stable [2 :: nat, 2, 1, 1] = [2, 3, 0, 1]"
  by code_simp

lemma one_case_edges:
  "count_edges (normalized exchange_lib one_case_table) = [((Some ''a'', Some ''b''), 1)]"
  by code_simp

lemma two_pairs_stable_edges:
  "count_edges (normalized stable_lib two_pairs_table) =
     [((Some ''c'', Some ''d''), 1), ((Some ''a'', Some ''b''), 1)]"
  by code_simp

lemma two_pairs_normalized:
  "rows (snd (normalize_events exchange_lib 0 [two_pairs_table]) !
         fst (normalize_events exchange_lib 0 [two_pairs_table])) =
     [event 1 ''d'' NaT, event 1 ''c'' NaT, event 2 ''b'' NaT, event 2 ''a'' NaT]"
  by code_simp

lemma two_pairs_edges:
  "count_edges (normalized exchange_lib two_pairs_table) =
     [((Some ''d'', Some ''c''), 1), ((Some ''b'', Some ''a''), 1)]"
  by code_simp

text \<open>
  C2 at a table without a \<open>timestamp\<close> column whose case identifiers are 2, 2, 1, 1, with
  an index sort that meets the library's contract and exchanges keys that are out of order:
  the rows of each case come back in the other order, and the edges that are counted go
  from the later step of a case to the earlier one, \<open>d\<close> to \<open>c\<close> and \<open>b\<close> to \<open>a\<close>,
  where the order of the input gives \<open>c\<close> to \<open>d\<close> and \<open>a\<close> to \<open>b\<close>.
\<close>

theorem unstable_fallback_sort:
  "lib_ok exchange_lib \<and>
   ''timestamp'' \<notin> set (columns two_pairs_table) \<and>
   map (\<lambda>r. (case_id r, step r)) (rows two_pairs_table) =
     [(Some 2, Some ''a''), (Some 2, Some ''b''), (Some 1, Some ''c''), (Some 1, Some ''d'')] \<and>
   map (\<lambda>r. (case_id r, step r))
     (rows (snd (normalize_events exchange_lib 0 [two_pairs_table]) !
            fst (normalize_events exchange_lib 0 [two_pairs_table]))) =
     [(Some 1, Some ''d''), (Some 1, Some ''c''), (Some 2, Some ''b''), (Some 2, Some ''a'')] \<and>
   map (\<lambda>e. (e_from e, e_to e, e_count e))
     (edges (graph (projr (fst (analyze_dataframe exchange_lib 0 [two_pairs_table]))))) =
     [(Some ''d'', Some ''c'', 1), (Some ''b'', Some ''a'', 1)]"
proof -
  have c: "{''case_id'', ''step''} \<subseteq> set (columns ([two_pairs_table] ! 0))"
    by (simp add: two_pairs_table_def)
  have t: "''timestamp'' \<notin> set (columns two_pairs_table)"
    by (simp add: two_pairs_table_def)
  have "edges (graph (projr (fst (analyze_dataframe exchange_lib 0 [two_pairs_table])))) =
      map (\<lambda>((src, dst), c). \<lparr>e_from = src, e_to = dst, e_count = c\<rparr>)
        (count_edges (normalized exchange_lib two_pairs_table))"
    by (simp add: analyze_dataframe_fst[OF c])
  then have e: "map (\<lambda>e. (e_from e, e_to e, e_count e))
     (edges (graph (projr (fst (analyze_dataframe exchange_lib 0 [two_pairs_table]))))) =
     [(Some ''d'', Some ''c'', 1), (Some ''b'', Some ''a'', 1)]"
    by (simp only: two_pairs_edges) simp
  have s: "map (\<lambda>r. (case_id r, step r)) (rows two_pairs_table) =
     [(Some 2, Some ''a''), (Some 2, Some ''b''), (Some 1, Some ''c''), (Some 1, Some ''d'')]"
    by (simp add: two_pairs_table_def event_def)
  have n: "map (\<lambda>r. (case_id r, step r))
     (rows (snd (normalize_events exchange_lib 0 [two_pairs_table]) !
            fst (normalize_events exchange_lib 0 [two_pairs_table]))) =
     [(Some 1, Some ''d''), (Some 1, Some ''c''), (Some 2, Some ''b''), (Some 2, Some ''a'')]"
    by (simp only: two_pairs_normalized) (simp add: event_def)
  show ?thesis
    by (rule conjI[OF lib_ok_exchange conjI[OF t conjI[OF s conjI[OF n e]]]])
qed

end
